theory Spec2Isabelle
  imports Complex_Main
begin

section \<open>Values and the process environment\<close>

text \<open>
  The values that travel between the model, the normaliser, the cache and the services are
  the values \<^verbatim>\<open>json.loads\<close> produces: \<^verbatim>\<open>None\<close>, booleans, integers, floats (idealised
  as reals), strings, lists and dicts (association lists in insertion order).
\<close>

datatype json =
    JNull
  | JBool bool
  | JInt int
  | JFloat real
  | JString string
  | JArray "json list"
  | JObject "(string \<times> json) list"

text \<open>The exceptions the orchestration layer raises or lets through, with their text.\<close>

datatype exn =
    RuntimeError string
  | ValueError string
  | AttributeError string
  | IndexError string
  | JSONDecodeError string
  | RecursionError string
  | Exception string

text \<open>
  Everything outside the Python objects: the wall clock, the sleeps requested so far, the
  calls made to providers, environment variables and the files of the cache directory.
  Instants and durations are counted in microseconds, the resolution of \<^verbatim>\<open>datetime\<close>.
  \<open>ticks\<close> is the time that passes before each successive reading of the clock: the clock
  never runs backwards, and \<^verbatim>\<open>time.sleep(d)\<close> moves it by \<open>d\<close> (any overshoot is
  part of the next tick). \<open>sleeps\<close>, \<open>provider_calls\<close> and \<open>fs_log\<close> only observe what the
  code does; no modelled function reads them.
\<close>

datatype fs_op = Exists string | Read string | Write string | Remove string

record env =
  clock :: int
  ticks :: "nat list"
  sleeps :: "int list"
  provider_calls :: "string list"
  environ :: "string \<rightharpoonup> string"
  files :: "string \<rightharpoonup> string"
  fs_log :: "fs_op list"

definition read_clock :: "env \<Rightarrow> int \<times> env" where
  "read_clock e =
     (case ticks e of
        [] \<Rightarrow> (clock e, e)
      | d # ds \<Rightarrow> (clock e + int d, e\<lparr>clock := clock e + int d, ticks := ds\<rparr>))"

definition time_sleep :: "int \<Rightarrow> env \<Rightarrow> exn + env" where
  "time_sleep d e =
     (if d < 0 then Inl (ValueError ''sleep length must be non-negative'')
      else Inr (e\<lparr>clock := clock e + d, sleeps := sleeps e @ [d]\<rparr>))"

definition second :: int where
  "second = 1000000"

section \<open>Provider router (services/llm_router.py)\<close>

record ProviderConfig =
  name :: string
  priority :: int

text \<open>
  The keyword arguments of \<^verbatim>\<open>complete\<close>, and what one call of a provider's
  \<^verbatim>\<open>complete\<close> does: it returns a value, or raises \<^verbatim>\<open>ProviderRateLimitError\<close>,
  \<^verbatim>\<open>ProviderError\<close> or some other \<^verbatim>\<open>Exception\<close>; the string is \<^verbatim>\<open>str(exc)\<close>.
  A provider is called at most once per \<^verbatim>\<open>LLMRouter.complete\<close>, so its behaviour is a
  function of the request.
\<close>

record request =
  prompt :: string
  system :: "string option"
  response_format :: string
  temperature :: real
  max_tokens :: int
  timeout :: int

datatype outcome =
    Returned json
  | ProviderRateLimitError string
  | ProviderError string
  | OtherException string

record BaseProvider =
  config :: ProviderConfig
  run :: "request \<Rightarrow> outcome"

record LLMRouter =
  providers :: "BaseProvider list"

text \<open>
  \<^verbatim>\<open>LLMRouter.__init__\<close>: \<open>given\<close> is the \<^verbatim>\<open>providers\<close> argument, \<open>discovered\<close> what
  \<^verbatim>\<open>_discover_providers()\<close> would return. \<^verbatim>\<open>sorted\<close> is stable, as \<^const>\<open>sort_key\<close> is.
\<close>

definition LLMRouter_init :: "BaseProvider list option \<Rightarrow> BaseProvider list \<Rightarrow> exn + LLMRouter" where
  "LLMRouter_init given discovered =
     (let provider_list = (case given of Some ps \<Rightarrow> ps | None \<Rightarrow> discovered) in
      if provider_list = [] then
        Inl (RuntimeError
          ''No LLM provider configured. Set GROQ_API_KEY in your environment variables.'')
      else Inr \<lparr>providers = sort_key (\<lambda>p. priority (config p)) provider_list\<rparr>)"

definition failure_text :: "BaseProvider \<Rightarrow> string \<Rightarrow> string" where
  "failure_text p exc = name (config p) @ '': '' @ exc"

text \<open>Python's \<^verbatim>\<open>x or y\<close> for an optional string: \<^verbatim>\<open>None\<close> and the empty string are falsy.\<close>

definition or_else :: "string option \<Rightarrow> string \<Rightarrow> string" where
  "or_else x y = (case x of None \<Rightarrow> y | Some t \<Rightarrow> if t = [] then y else t)"

text \<open>
  The loop of \<^verbatim>\<open>LLMRouter.complete\<close> over the providers still to try, with the local
  \<^verbatim>\<open>last_error\<close>. The model returns \<^verbatim>\<open>last_error\<close> beside the result so that it can
  be observed. An exception raised inside a handler (\<^verbatim>\<open>time.sleep\<close> on a negative
  \<^verbatim>\<open>retry_delay\<close>) leaves the loop. The printed lines are not modelled.
\<close>

fun complete_loop ::
  "request \<Rightarrow> int \<Rightarrow> BaseProvider list \<Rightarrow> string option \<Rightarrow> env \<Rightarrow> (exn + json) \<times> string option \<times> env"
where
  "complete_loop req retry_delay [] last_error e =
     (Inl (RuntimeError (or_else last_error ''All LLM providers failed'')), last_error, e)"
| "complete_loop req retry_delay (p # ps) last_error e =
     (let (start, e1) = read_clock e;
          e2 = e1\<lparr>provider_calls := provider_calls e1 @ [name (config p)]\<rparr>
      in case run p req of
           Returned result \<Rightarrow>
             (let (finish, e3) = read_clock e2 in (Inr result, last_error, e3))
         | ProviderRateLimitError exc \<Rightarrow>
             (case time_sleep retry_delay e2 of
                Inl err \<Rightarrow> (Inl err, Some (failure_text p exc), e2)
              | Inr e3 \<Rightarrow> complete_loop req retry_delay ps (Some (failure_text p exc)) e3)
         | ProviderError exc \<Rightarrow>
             complete_loop req retry_delay ps (Some (failure_text p exc)) e2
         | OtherException exc \<Rightarrow>
             complete_loop req retry_delay ps (Some (failure_text p exc)) e2)"

declare complete_loop.simps [simp del]

definition complete_run ::
  "LLMRouter \<Rightarrow> request \<Rightarrow> int \<Rightarrow> env \<Rightarrow> (exn + json) \<times> string option \<times> env" where
  "complete_run r req retry_delay e = complete_loop req retry_delay (providers r) None e"

definition complete :: "LLMRouter \<Rightarrow> request \<Rightarrow> int \<Rightarrow> env \<Rightarrow> (exn + json) \<times> env" where
  "complete r req retry_delay e =
     (case complete_run r req retry_delay e of (res, last_error, e') \<Rightarrow> (res, e'))"

text \<open>Vocabulary for the router's properties.\<close>

definition raises :: "request \<Rightarrow> BaseProvider \<Rightarrow> bool" where
  "raises req p = (case run p req of Returned v \<Rightarrow> False | _ \<Rightarrow> True)"

definition raised_text :: "request \<Rightarrow> BaseProvider \<Rightarrow> string" where
  "raised_text req p =
     (case run p req of
        Returned v \<Rightarrow> []
      | ProviderRateLimitError exc \<Rightarrow> failure_text p exc
      | ProviderError exc \<Rightarrow> failure_text p exc
      | OtherException exc \<Rightarrow> failure_text p exc)"

definition first_success :: "request \<Rightarrow> BaseProvider list \<Rightarrow> (BaseProvider \<times> json) option" where
  "first_success req ps =
     (case dropWhile (raises req) ps of
        [] \<Rightarrow> None
      | p # rest \<Rightarrow> (case run p req of Returned v \<Rightarrow> Some (p, v) | _ \<Rightarrow> None))"

definition attempted :: "request \<Rightarrow> BaseProvider list \<Rightarrow> BaseProvider list" where
  "attempted req ps = takeWhile (raises req) ps @ take 1 (dropWhile (raises req) ps)"

lemma failure_text_nonempty: "failure_text p exc \<noteq> []"
  by (simp add: failure_text_def)

lemma provider_calls_read_clock: "provider_calls (snd (read_clock e)) = provider_calls e"
  by (simp add: read_clock_def split: list.splits)

lemma complete_loop_returned:
  assumes "run p req = Returned v"
  shows "\<exists>e'. complete_loop req retry_delay (p # ps) le e = (Inr v, le, e') \<and>
              provider_calls e' = provider_calls e @ [name (config p)]"
proof -
  obtain start e1 where rc: "read_clock e = (start, e1)" by (cases "read_clock e")
  define e2 where "e2 = e1\<lparr>provider_calls := provider_calls e1 @ [name (config p)]\<rparr>"
  obtain fin e3 where rc2: "read_clock e2 = (fin, e3)" by (cases "read_clock e2")
  have "provider_calls e1 = provider_calls e"
    using provider_calls_read_clock [of e] rc by simp
  moreover have "provider_calls e3 = provider_calls e2"
    using provider_calls_read_clock [of e2] rc2 by simp
  ultimately have "provider_calls e3 = provider_calls e @ [name (config p)]"
    by (simp add: e2_def)
  moreover have "complete_loop req retry_delay (p # ps) le e = (Inr v, le, e3)"
    using assms rc rc2 by (simp add: e2_def complete_loop.simps)
  ultimately show ?thesis by blast
qed

lemma complete_loop_raised:
  assumes "raises req p" and "0 \<le> retry_delay"
  shows "\<exists>e'. complete_loop req retry_delay (p # ps) le e =
                complete_loop req retry_delay ps (Some (raised_text req p)) e' \<and>
              provider_calls e' = provider_calls e @ [name (config p)]"
proof -
  obtain start e1 where rc: "read_clock e = (start, e1)" by (cases "read_clock e")
  define e2 where "e2 = e1\<lparr>provider_calls := provider_calls e1 @ [name (config p)]\<rparr>"
  have pc: "provider_calls e2 = provider_calls e @ [name (config p)]"
    using provider_calls_read_clock [of e] rc by (simp add: e2_def)
  show ?thesis
  proof (cases "run p req")
    case (Returned v)
    then show ?thesis using assms(1) by (simp add: raises_def)
  next
    case (ProviderRateLimitError exc)
    define e3 where "e3 = e2\<lparr>clock := clock e2 + retry_delay, sleeps := sleeps e2 @ [retry_delay]\<rparr>"
    have "complete_loop req retry_delay (p # ps) le e =
            complete_loop req retry_delay ps (Some (raised_text req p)) e3"
      using ProviderRateLimitError rc assms(2)
      by (simp add: e2_def e3_def time_sleep_def raised_text_def complete_loop.simps)
    moreover have "provider_calls e3 = provider_calls e @ [name (config p)]"
      using pc by (simp add: e3_def)
    ultimately show ?thesis by blast
  next
    case (ProviderError exc)
    then have "complete_loop req retry_delay (p # ps) le e =
            complete_loop req retry_delay ps (Some (raised_text req p)) e2"
      using rc by (simp add: e2_def raised_text_def complete_loop.simps)
    then show ?thesis using pc by blast
  next
    case (OtherException exc)
    then have "complete_loop req retry_delay (p # ps) le e =
            complete_loop req retry_delay ps (Some (raised_text req p)) e2"
      using rc by (simp add: e2_def raised_text_def complete_loop.simps)
    then show ?thesis using pc by blast
  qed
qed

text \<open>Every provider of \<open>qs\<close> raises: the loop runs through all of them.\<close>

lemma complete_loop_all_raise:
  assumes "0 \<le> retry_delay"
  shows "\<forall>p \<in> set qs. raises req p \<Longrightarrow>
         \<exists>e'. complete_loop req retry_delay (qs @ rest) le e =
                complete_loop req retry_delay rest
                  (if qs = [] then le else Some (raised_text req (last qs))) e' \<and>
              provider_calls e' = provider_calls e @ map (\<lambda>p. name (config p)) qs"
proof (induction qs arbitrary: le e)
  case Nil
  show ?case by (intro exI [of _ e]) simp
next
  case (Cons q qs)
  from Cons.prems have q: "raises req q" and qs: "\<forall>p \<in> set qs. raises req p" by simp_all
  obtain e1 where e1:
    "complete_loop req retry_delay (q # qs @ rest) le e =
       complete_loop req retry_delay (qs @ rest) (Some (raised_text req q)) e1"
    "provider_calls e1 = provider_calls e @ [name (config q)]"
    using complete_loop_raised [OF q assms, of "qs @ rest" le e] by auto
  obtain e2 where e2:
    "complete_loop req retry_delay (qs @ rest) (Some (raised_text req q)) e1 =
       complete_loop req retry_delay rest
         (if qs = [] then Some (raised_text req q) else Some (raised_text req (last qs))) e2"
    "provider_calls e2 = provider_calls e1 @ map (\<lambda>p. name (config p)) qs"
    using Cons.IH [OF qs, of "Some (raised_text req q)" e1] by auto
  have "complete_loop req retry_delay ((q # qs) @ rest) le e =
          complete_loop req retry_delay rest
            (if q # qs = [] then le else Some (raised_text req (last (q # qs)))) e2"
    using e1(1) e2(1) by simp
  moreover have "provider_calls e2 = provider_calls e @ map (\<lambda>p. name (config p)) (q # qs)"
    using e1(2) e2(2) by simp
  ultimately show ?case by blast
qed

lemma raised_text_nonempty: "raises req p \<Longrightarrow> raised_text req p \<noteq> []"
  by (cases "run p req") (simp_all add: raises_def raised_text_def failure_text_nonempty)

lemma takeWhile_raises: "\<forall>p \<in> set (takeWhile (raises req) ps). raises req p"
  using set_takeWhileD by fastforce

lemma complete_loop_exhausted:
  assumes "0 \<le> retry_delay" and "ps \<noteq> []" and "\<forall>p \<in> set ps. raises req p"
  shows "\<exists>e'. complete_loop req retry_delay ps le e =
           (Inl (RuntimeError (raised_text req (last ps))), Some (raised_text req (last ps)), e') \<and>
         provider_calls e' = provider_calls e @ map (\<lambda>p. name (config p)) ps"
proof -
  obtain e' where e':
    "complete_loop req retry_delay (ps @ []) le e =
       complete_loop req retry_delay [] (if ps = [] then le else Some (raised_text req (last ps))) e'"
    "provider_calls e' = provider_calls e @ map (\<lambda>p. name (config p)) ps"
    using complete_loop_all_raise [OF assms(1) assms(3), of "[]" le e] by auto
  have "raises req (last ps)" using assms(2,3) by simp
  then have "or_else (Some (raised_text req (last ps))) ''All LLM providers failed'' =
               raised_text req (last ps)"
    using raised_text_nonempty [of req "last ps"] by (simp add: or_else_def)
  then have "complete_loop req retry_delay ps le e =
           (Inl (RuntimeError (raised_text req (last ps))), Some (raised_text req (last ps)), e')"
    using e'(1) assms(2) by (simp add: complete_loop.simps)
  then show ?thesis using e'(2) by blast
qed

lemma complete_loop_first_success:
  assumes "0 \<le> retry_delay" and "\<forall>q \<in> set qs. raises req q" and "run p req = Returned v"
  shows "\<exists>e'. complete_loop req retry_delay (qs @ p # rest) le e =
           (Inr v, (if qs = [] then le else Some (raised_text req (last qs))), e') \<and>
         provider_calls e' = provider_calls e @ map (\<lambda>p. name (config p)) (qs @ [p])"
proof -
  obtain e1 where e1:
    "complete_loop req retry_delay (qs @ p # rest) le e =
       complete_loop req retry_delay (p # rest)
         (if qs = [] then le else Some (raised_text req (last qs))) e1"
    "provider_calls e1 = provider_calls e @ map (\<lambda>p. name (config p)) qs"
    using complete_loop_all_raise [OF assms(1) assms(2), of "p # rest" le e] by auto
  obtain e2 where e2:
    "complete_loop req retry_delay (p # rest)
        (if qs = [] then le else Some (raised_text req (last qs))) e1 =
       (Inr v, (if qs = [] then le else Some (raised_text req (last qs))), e2)"
    "provider_calls e2 = provider_calls e1 @ [name (config p)]"
    using complete_loop_returned [OF assms(3), of retry_delay rest
        "if qs = [] then le else Some (raised_text req (last qs))" e1] by auto
  have "provider_calls e2 = provider_calls e @ map (\<lambda>p. name (config p)) (qs @ [p])"
    using e1(2) e2(2) by simp
  then show ?thesis using e1(1) e2(1) by metis
qed

lemma attempted_all_raise:
  assumes "\<forall>p \<in> set ps. raises req p"
  shows "attempted req ps = ps"
proof -
  have tw: "takeWhile (raises req) ps = ps"
    using assms by (simp add: takeWhile_eq_all_conv)
  have dw: "dropWhile (raises req) ps = []"
    using assms by (simp add: dropWhile_eq_Nil_conv)
  show ?thesis by (simp only: attempted_def tw dw take.simps append_Nil2)
qed

lemma attempted_split:
  "\<forall>q \<in> set qs. raises req q \<Longrightarrow> \<not> raises req p \<Longrightarrow> attempted req (qs @ p # rest) = qs @ [p]"
  by (simp add: attempted_def takeWhile_append2 dropWhile_append2)

lemma split_at_first_success:
  assumes "\<exists>p \<in> set ps. \<not> raises req p"
  shows "\<exists>qs p rest v. ps = qs @ p # rest \<and> (\<forall>q \<in> set qs. raises req q) \<and>
           run p req = Returned v \<and> first_success req ps = Some (p, v)"
proof -
  have ne: "dropWhile (raises req) ps \<noteq> []"
    using assms by (simp add: dropWhile_eq_Nil_conv)
  then obtain p rest where d: "dropWhile (raises req) ps = p # rest"
    by (cases "dropWhile (raises req) ps") auto
  have "\<not> raises req p" using hd_dropWhile [OF ne] d by simp
  then obtain v where v: "run p req = Returned v"
    by (cases "run p req") (simp_all add: raises_def)
  have "ps = takeWhile (raises req) ps @ p # rest"
    using d takeWhile_dropWhile_id [of "raises req" ps] by simp
  moreover have "first_success req ps = Some (p, v)"
    using d v by (simp add: first_success_def)
  ultimately show ?thesis using takeWhile_raises [of req ps] v by blast
qed

lemma LLMRouter_init_Inr:
  assumes "LLMRouter_init given discovered = Inr r"
  shows "providers r =
           sort_key (\<lambda>p. priority (config p)) (case given of Some ps \<Rightarrow> ps | None \<Rightarrow> discovered)"
    and "providers r \<noteq> []"
proof -
  let ?l = "case given of Some ps \<Rightarrow> ps | None \<Rightarrow> discovered"
  have ne: "?l \<noteq> []"
    using assms by (auto simp: LLMRouter_init_def Let_def split: if_splits)
  then show "providers r = sort_key (\<lambda>p. priority (config p)) ?l"
    using assms by (auto simp: LLMRouter_init_def Let_def split: if_splits)
  then have "length (providers r) = length ?l" by simp
  then show "providers r \<noteq> []" using ne by auto
qed

lemma complete_run_attempted:
  assumes "0 \<le> retry_delay"
  shows "provider_calls (snd (snd (complete_run r req retry_delay e))) =
           provider_calls e @ map (\<lambda>p. name (config p)) (attempted req (providers r))"
proof (cases "\<exists>p \<in> set (providers r). \<not> raises req p")
  case True
  then obtain qs p rest v where sp: "providers r = qs @ p # rest"
      "\<forall>q \<in> set qs. raises req q" "run p req = Returned v"
    using split_at_first_success [of "providers r" req] by blast
  have "\<not> raises req p" using sp(3) by (simp add: raises_def)
  then have "attempted req (providers r) = qs @ [p]"
    using sp(1,2) attempted_split by simp
  then show ?thesis
    using complete_loop_first_success [OF assms sp(2,3), of rest None e] sp(1)
    by (auto simp: complete_run_def)
next
  case False
  then have all: "\<forall>p \<in> set (providers r). raises req p" by blast
  show ?thesis
  proof (cases "providers r = []")
    case True
    then show ?thesis
      by (simp add: complete_run_def complete_loop.simps attempted_def)
  next
    case False
    then show ?thesis
      using complete_loop_exhausted [OF assms False all, of None e] attempted_all_raise [OF all]
      by (auto simp: complete_run_def)
  qed
qed

subsection \<open>Two providers for the failover scenario\<close>

definition provider_A :: BaseProvider where
  "provider_A = \<lparr>config = \<lparr>name = ''A'', priority = 0\<rparr>,
                 run = (\<lambda>req. ProviderRateLimitError ''Groq rate limit reached'')\<rparr>"

definition provider_B :: BaseProvider where
  "provider_B = \<lparr>config = \<lparr>name = ''B'', priority = 1\<rparr>,
                 run = (\<lambda>req. Returned (JObject [(''answer'', JString (prompt req))]))\<rparr>"

definition request0 :: request where
  "request0 = \<lparr>prompt = ''hi'', system = None, response_format = ''json'',
                temperature = 0.2, max_tokens = 900, timeout = 60\<rparr>"

definition env0 :: env where
  "env0 = \<lparr>clock = 0, ticks = [], sleeps = [], provider_calls = [],
             environ = Map.empty, files = Map.empty, fs_log = []\<rparr>"

subsection \<open>Properties of the router\<close>

text \<open>
  C1. For every non-empty list of configured providers, construction yields a router whose
  list is sorted by ascending priority and keeps the discovery order among equal priorities;
  \<^verbatim>\<open>complete\<close> calls the providers of that list in order, up to and including the first
  one that returns; it returns that provider's result, and the last error recorded at that
  moment is the failure of the provider tried just before it. (For \<open>retry_delay \<ge> 0\<close>, as
  the default 2.0 is.)
\<close>

theorem router_failover_order:
  assumes "ps \<noteq> []" and "0 \<le> retry_delay"
  shows "\<exists>r. LLMRouter_init (Some ps) discovered = Inr r \<and>
           sorted (map (\<lambda>p. priority (config p)) (providers r)) \<and>
           (\<forall>k. filter (\<lambda>p. priority (config p) = k) (providers r) =
                filter (\<lambda>p. priority (config p) = k) ps) \<and>
           provider_calls (snd (snd (complete_run r req retry_delay e))) =
             provider_calls e @ map (\<lambda>p. name (config p)) (attempted req (providers r)) \<and>
           (\<forall>qs p rest v.
              providers r = qs @ p # rest \<and> (\<forall>q \<in> set qs. raises req q) \<and>
              run p req = Returned v \<longrightarrow>
                attempted req (providers r) = qs @ [p] \<and>
                fst (complete_run r req retry_delay e) = Inr v \<and>
                fst (complete r req retry_delay e) = Inr v \<and>
                fst (snd (complete_run r req retry_delay e)) =
                  (if qs = [] then None else Some (raised_text req (last qs))))"
proof -
  define r where "r = \<lparr>providers = sort_key (\<lambda>p. priority (config p)) ps\<rparr>"
  have init: "LLMRouter_init (Some ps) discovered = Inr r"
    using assms(1) by (simp add: LLMRouter_init_def r_def)
  have srt: "sorted (map (\<lambda>p. priority (config p)) (providers r))"
    by (simp add: r_def)
  have stable: "\<forall>k. filter (\<lambda>p. priority (config p) = k) (providers r) =
                filter (\<lambda>p. priority (config p) = k) ps"
    by (simp add: r_def sort_key_stable)
  have calls: "provider_calls (snd (snd (complete_run r req retry_delay e))) =
             provider_calls e @ map (\<lambda>p. name (config p)) (attempted req (providers r))"
    by (rule complete_run_attempted [OF assms(2)])
  have first: "attempted req (providers r) = qs @ [p] \<and>
                fst (complete_run r req retry_delay e) = Inr v \<and>
                fst (complete r req retry_delay e) = Inr v \<and>
                fst (snd (complete_run r req retry_delay e)) =
                  (if qs = [] then None else Some (raised_text req (last qs)))"
    if sp: "providers r = qs @ p # rest" "\<forall>q \<in> set qs. raises req q" "run p req = Returned v"
    for qs p rest v
  proof -
    have "\<not> raises req p" using sp(3) by (simp add: raises_def)
    then have a: "attempted req (providers r) = qs @ [p]"
      using sp(1,2) attempted_split by simp
    obtain e' where e': "complete_run r req retry_delay e =
        (Inr v, (if qs = [] then None else Some (raised_text req (last qs))), e')"
      using complete_loop_first_success [OF assms(2) sp(2,3), of rest None e] sp(1)
      by (auto simp: complete_run_def)
    show ?thesis using a e' by (simp add: complete_def)
  qed
  show ?thesis
    using init srt stable calls first by blast
qed

theorem router_failover_order_witness:
  "[provider_B, provider_A] \<noteq> [] \<and> (0::int) \<le> 2 * second \<and>
   LLMRouter_init (Some [provider_B, provider_A]) [] = Inr \<lparr>providers = [provider_A, provider_B]\<rparr> \<and>
   complete_run \<lparr>providers = [provider_A, provider_B]\<rparr> request0 (2 * second) env0 =
     (Inr (JObject [(''answer'', JString ''hi'')]), Some ''A: Groq rate limit reached'',
      env0\<lparr>clock := 2000000, sleeps := [2000000], provider_calls := [''A'', ''B'']\<rparr>)"
  using router_failover_order [of "[provider_B, provider_A]" "2 * second" "[]" request0 env0]
  by (simp add: LLMRouter_init_def complete_run_def complete_loop.simps provider_A_def
      provider_B_def request0_def env0_def read_clock_def time_sleep_def second_def
      failure_text_def)

text \<open>
  C2. If every configured provider raises, \<^verbatim>\<open>complete\<close> raises the exhaustion
  \<^verbatim>\<open>RuntimeError\<close> whose message is the recorded failure of the last provider tried
  (\<^verbatim>\<open>"<name>: <exc>"\<close>); and that is the only failure it propagates: whenever some
  provider returns, \<^verbatim>\<open>complete\<close> returns the result of the first such provider.
  (For \<open>retry_delay \<ge> 0\<close>.)
\<close>

theorem router_exhaustion_only_failure:
  assumes "LLMRouter_init given discovered = Inr r" and "0 \<le> retry_delay"
  shows "((\<forall>p \<in> set (providers r). raises req p) \<longrightarrow>
            fst (complete r req retry_delay e) =
              Inl (RuntimeError (raised_text req (last (providers r)))) \<and>
            raised_text req (last (providers r)) \<noteq> []) \<and>
         ((\<exists>p \<in> set (providers r). \<not> raises req p) \<longrightarrow>
            (\<exists>p v. first_success req (providers r) = Some (p, v) \<and>
                   fst (complete r req retry_delay e) = Inr v)) \<and>
         (\<forall>err. fst (complete r req retry_delay e) = Inl err \<longrightarrow>
            (\<forall>p \<in> set (providers r). raises req p) \<and>
            err = RuntimeError (raised_text req (last (providers r))))"
proof -
  have ne: "providers r \<noteq> []" by (rule LLMRouter_init_Inr(2) [OF assms(1)])
  have exhausted: "fst (complete r req retry_delay e) =
              Inl (RuntimeError (raised_text req (last (providers r)))) \<and>
            raised_text req (last (providers r)) \<noteq> []"
    if all: "\<forall>p \<in> set (providers r). raises req p"
  proof -
    obtain e' where "complete_run r req retry_delay e =
        (Inl (RuntimeError (raised_text req (last (providers r)))),
         Some (raised_text req (last (providers r))), e')"
      using complete_loop_exhausted [OF assms(2) ne all, of None e]
      by (auto simp: complete_run_def)
    moreover have "raises req (last (providers r))" using ne all by simp
    ultimately show ?thesis
      using raised_text_nonempty [of req "last (providers r)"] by (simp add: complete_def)
  qed
  have served: "\<exists>p v. first_success req (providers r) = Some (p, v) \<and>
                   fst (complete r req retry_delay e) = Inr v"
    if some: "\<exists>p \<in> set (providers r). \<not> raises req p"
  proof -
    obtain qs p rest v where sp: "providers r = qs @ p # rest"
        "\<forall>q \<in> set qs. raises req q" "run p req = Returned v"
        "first_success req (providers r) = Some (p, v)"
      using split_at_first_success [OF some] by blast
    obtain e' where "complete_run r req retry_delay e =
        (Inr v, (if qs = [] then None else Some (raised_text req (last qs))), e')"
      using complete_loop_first_success [OF assms(2) sp(2,3), of rest None e] sp(1)
      by (auto simp: complete_run_def)
    then have "fst (complete r req retry_delay e) = Inr v" by (simp add: complete_def)
    then show ?thesis using sp(4) by blast
  qed
  have only: "(\<forall>p \<in> set (providers r). raises req p) \<and>
            err = RuntimeError (raised_text req (last (providers r)))"
    if err: "fst (complete r req retry_delay e) = Inl err" for err
  proof (cases "\<exists>p \<in> set (providers r). \<not> raises req p")
    case True
    then show ?thesis using served err by auto
  next
    case False
    then have all: "\<forall>p \<in> set (providers r). raises req p" by blast
    then show ?thesis using exhausted err by simp
  qed
  show ?thesis using exhausted served only by blast
qed

definition provider_C :: BaseProvider where
  "provider_C = \<lparr>config = \<lparr>name = ''C'', priority = 5\<rparr>,
                 run = (\<lambda>req. ProviderError ''Groq request failed (401): denied'')\<rparr>"

theorem router_exhaustion_only_failure_witness:
  "LLMRouter_init (Some [provider_C, provider_A]) [] = Inr \<lparr>providers = [provider_A, provider_C]\<rparr> \<and>
   (0::int) \<le> 2 * second \<and>
   raises request0 provider_A \<and> raises request0 provider_C \<and>
   complete \<lparr>providers = [provider_A, provider_C]\<rparr> request0 (2 * second) env0 =
     (Inl (RuntimeError ''C: Groq request failed (401): denied''),
      env0\<lparr>clock := 2000000, sleeps := [2000000], provider_calls := [''A'', ''C'']\<rparr>) \<and>
   LLMRouter_init (Some [provider_B, provider_A]) [] = Inr \<lparr>providers = [provider_A, provider_B]\<rparr> \<and>
   \<not> raises request0 provider_B \<and>
   fst (complete \<lparr>providers = [provider_A, provider_B]\<rparr> request0 (2 * second) env0) =
     Inr (JObject [(''answer'', JString ''hi'')])"
  using router_exhaustion_only_failure
    [of "Some [provider_C, provider_A]" "[]" "\<lparr>providers = [provider_A, provider_C]\<rparr>"
        "2 * second" request0 env0]
  by (simp add: LLMRouter_init_def complete_def complete_run_def complete_loop.simps
      provider_A_def provider_B_def provider_C_def request0_def env0_def read_clock_def
      time_sleep_def second_def failure_text_def raises_def or_else_def)

section \<open>Rate limiter (utils/rate_limiter.py)\<close>

subsection \<open>The strings exchanged between \<^verbatim>\<open>can_make_call\<close> and \<^verbatim>\<open>wait_if_needed\<close>\<close>

text \<open>
  \<^verbatim>\<open>can_make_call\<close> reports its verdict as text and \<^verbatim>\<open>wait_if_needed\<close> reads the wait back
  from it (\<^verbatim>\<open>"Wait" in message\<close>, \<^verbatim>\<open>float(message.split()[-2])\<close>), so the model keeps the
  text: decimal rendering of integers, the \<^verbatim>\<open>.1f\<close> format of a duration given in
  microseconds, \<^verbatim>\<open>str.split()\<close>, substring test and \<^verbatim>\<open>float\<close>.
\<close>

definition digit :: "nat \<Rightarrow> char" where
  "digit d = ''0123456789'' ! d"

fun str_nat :: "nat \<Rightarrow> string" where
  "str_nat n = (if n < 10 then [digit n] else str_nat (n div 10) @ [digit (n mod 10)])"

declare str_nat.simps [simp del]

definition str_int :: "int \<Rightarrow> string" where
  "str_int i = (if i < 0 then CHR ''-'' # str_nat (nat (- i)) else str_nat (nat i))"

text \<open>
  \<^verbatim>\<open>timedelta.total_seconds()\<close> divides the microseconds \<open>w\<close> of the duration by \<open>10 ^ 6\<close>
  and rounds the quotient to the nearest binary float, ties to even: the float is
  \<open>m / 2 ^ s\<close>, with \<open>s\<close> the least scale that brings the 53-bit mantissa \<open>m\<close> to \<open>2 ^ 52\<close>
  or more. (Durations of \<open>2 ^ 53\<close> seconds and more, for which \<open>s\<close> would be negative, are
  beyond the range of \<^verbatim>\<open>datetime\<close>.) \<^verbatim>\<open>f"{wait_time:.1f}"\<close> then writes the tenth nearest to
  that float, ties to even again: \<open>0.25\<close> is written \<^verbatim>\<open>0.2\<close>, and \<open>0.15\<close>, whose float lies
  below it, \<^verbatim>\<open>0.1\<close>.
\<close>

definition round_half_even :: "int \<Rightarrow> int \<Rightarrow> int" where
  "round_half_even a b =
     (let q = a div b; r = a mod b
      in if 2 * r < b then q else if b < 2 * r then q + 1 else if even q then q else q + 1)"

definition float_scale :: "int \<Rightarrow> nat" where
  "float_scale w = length (takeWhile (\<lambda>k. w * 2 ^ k < 2 ^ 52 * 1000000) [0..<73])"

definition total_seconds :: "int \<Rightarrow> int \<times> nat" where
  "total_seconds w = (round_half_even (w * 2 ^ float_scale w) 1000000, float_scale w)"

definition tenths :: "int \<Rightarrow> int" where
  "tenths w = (case total_seconds w of (m, s) \<Rightarrow> round_half_even (10 * m) (2 ^ s))"

definition format_1f :: "int \<Rightarrow> string" where
  "format_1f w =
     (let t = nat (tenths \<bar>w\<bar>)
      in (if w < 0 then ''-'' else []) @ str_nat (t div 10) @ ''.'' @ [digit (t mod 10)])"

definition digit_val :: "char \<Rightarrow> nat option" where
  "digit_val c = map_of (zip ''0123456789'' [0, 1, 2, 3, 4, 5, 6, 7, 8, 9]) c"

fun parse_digits :: "nat \<Rightarrow> string \<Rightarrow> nat option" where
  "parse_digits acc [] = Some acc"
| "parse_digits acc (c # cs) =
     (case digit_val c of None \<Rightarrow> None | Some d \<Rightarrow> parse_digits (10 * acc + d) cs)"

text \<open>
  \<^verbatim>\<open>float(s)\<close> on the texts \<^verbatim>\<open>.1f\<close> writes (an optional sign, digits, a point, one
  digit), in microseconds; \<open>None\<close> stands for \<^verbatim>\<open>ValueError\<close>. Other spellings of a float
  never reach it here and are outside this model.
\<close>

definition py_float :: "string \<Rightarrow> int option" where
  "py_float s =
     (let neg = (s \<noteq> [] \<and> hd s = CHR ''-'');
          body = (if neg then tl s else s);
          whole = takeWhile (\<lambda>c. c \<noteq> CHR ''.'') body;
          frac = dropWhile (\<lambda>c. c \<noteq> CHR ''.'') body
      in if whole = [] then None
         else case frac of
                [dot, d] \<Rightarrow>
                  (case (parse_digits 0 whole, digit_val d) of
                     (Some i, Some f) \<Rightarrow>
                       Some ((if neg then - 1 else 1) * (int i * 10 + int f) * 100000)
                   | _ \<Rightarrow> None)
              | _ \<Rightarrow> None)"

text \<open>
  \<^verbatim>\<open>str.split()\<close> without arguments: the maximal runs of non-whitespace characters. The
  whitespace of \<^verbatim>\<open>str\<close> is that of \<^verbatim>\<open>str.isspace\<close>; characters are code points below 256.
\<close>

definition whitespace :: string where
  "whitespace = [CHR 0x20, CHR 0x09, CHR 0x0A, CHR 0x0B, CHR 0x0C, CHR 0x0D,
                 CHR 0x1C, CHR 0x1D, CHR 0x1E, CHR 0x1F, CHR 0x85, CHR 0xA0]"

definition isspace :: "char \<Rightarrow> bool" where
  "isspace c = (c \<in> set whitespace)"

fun words :: "string \<Rightarrow> string \<Rightarrow> string list" where
  "words cur [] = (if cur = [] then [] else [cur])"
| "words cur (c # cs) =
     (if isspace c then (if cur = [] then words [] cs else cur # words [] cs)
      else words (cur @ [c]) cs)"

definition split :: "string \<Rightarrow> string list" where
  "split s = words [] s"

text \<open>\<^verbatim>\<open>pat in s\<close> for strings.\<close>

fun contains :: "string \<Rightarrow> string \<Rightarrow> bool" where
  "contains pat [] = (pat = [])"
| "contains pat (c # cs) = (take (length pat) (c # cs) = pat \<or> contains pat cs)"

lemma digit_val_digit: "d < 10 \<Longrightarrow> digit_val (digit d) = Some d"
proof -
  assume "d < 10"
  then have "d \<in> {0, 1, 2, 3, 4, 5, 6, 7, 8, 9}" by auto
  then show ?thesis
    by (auto simp: digit_def digit_val_def)
qed

lemma digit_val_others:
  "digit_val CHR ''.'' = None" "digit_val CHR ''-'' = None" "digit_val CHR ''W'' = None"
  by (simp_all add: digit_val_def)

lemma digit_val_isspace:
  assumes "isspace c"
  shows "digit_val c = None"
proof -
  have "\<forall>x \<in> set whitespace. digit_val x = None"
    by (simp add: whitespace_def digit_val_def)
  moreover have "c \<in> set whitespace" using assms by (simp add: isspace_def)
  ultimately show ?thesis by (rule bspec)
qed

lemma str_nat_digits: "c \<in> set (str_nat n) \<Longrightarrow> digit_val c \<noteq> None"
proof (induction n rule: str_nat.induct)
  case (1 n)
  show ?case
  proof (cases "n < 10")
    case True
    then have "str_nat n = [digit n]" by (subst str_nat.simps) simp
    then show ?thesis using "1.prems" digit_val_digit [OF True] by simp
  next
    case False
    have m: "n mod 10 < 10" by simp
    have "str_nat n = str_nat (n div 10) @ [digit (n mod 10)]"
      using False by (subst str_nat.simps) simp
    then have "c \<in> set (str_nat (n div 10)) \<or> c = digit (n mod 10)"
      using "1.prems" by auto
    then show ?thesis
      using "1.IH" [OF False] digit_val_digit [OF m] by auto
  qed
qed

lemma str_nat_nonempty: "str_nat n \<noteq> []"
  by (subst str_nat.simps) simp

lemma parse_digits_snoc:
  "parse_digits acc (xs @ [c]) =
     (case parse_digits acc xs of
        None \<Rightarrow> None
      | Some a \<Rightarrow> (case digit_val c of None \<Rightarrow> None | Some d \<Rightarrow> Some (10 * a + d)))"
  by (induction xs arbitrary: acc) (auto split: option.splits)

lemma parse_digits_str_nat: "parse_digits 0 (str_nat n) = Some n"
proof (induction n rule: str_nat.induct)
  case (1 n)
  show ?case
  proof (cases "n < 10")
    case True
    then show ?thesis using digit_val_digit [of n] by (subst str_nat.simps) simp
  next
    case False
    have "n mod 10 < 10" by simp
    then show ?thesis
      using False 1 digit_val_digit [of "n mod 10"]
      by (subst str_nat.simps) (simp add: parse_digits_snoc)
  qed
qed


text \<open>The duration, in microseconds, that \<^verbatim>\<open>float\<close> reads back from the text \<^verbatim>\<open>.1f\<close> wrote.\<close>

definition round_tenths :: "int \<Rightarrow> int" where
  "round_tenths w = tenths w * 100000"

lemma round_half_even_lower:
  assumes "0 < b"
  shows "2 * a - b \<le> 2 * (round_half_even a b * b)"
proof -
  define q where "q = a div b"
  define m where "m = a mod b"
  have a: "a = q * b + m" by (simp add: q_def m_def)
  have m: "0 \<le> m" "m < b" using assms by (simp_all add: m_def)
  have "2 * (q * b + m) - b \<le>
      2 * ((if 2 * m < b then q else if b < 2 * m then q + 1 else if even q then q else q + 1) * b)"
    using m by (simp add: algebra_simps)
  then show ?thesis
    unfolding round_half_even_def Let_def q_def [symmetric] m_def [symmetric]
    using a by simp
qed

lemma round_half_even_nonneg: "0 \<le> a \<Longrightarrow> 0 < b \<Longrightarrow> 0 \<le> round_half_even a b"
  by (simp add: round_half_even_def Let_def pos_imp_zdiv_nonneg_iff)

lemma tenths_nonneg: "0 \<le> w \<Longrightarrow> 0 \<le> tenths w"
  by (simp add: tenths_def total_seconds_def round_half_even_nonneg)

lemma round_tenths_examples:
  "round_tenths 60000000 = 60000000" "round_tenths 59999999 = 60000000"
  "round_tenths 250000 = 200000" "round_tenths 150000 = 100000"
  by code_simp+

lemma str_nat_hd: "digit_val (hd (str_nat n)) \<noteq> None"
  using str_nat_digits [of "hd (str_nat n)" n] str_nat_nonempty [of n] by simp

lemma str_nat_no_dot: "c \<in> set (str_nat n) \<Longrightarrow> c \<noteq> CHR ''.''"
  using str_nat_digits [of c n] digit_val_others by auto

lemma py_float_format_1f:
  assumes "0 \<le> w"
  shows "py_float (format_1f w) = Some (round_tenths w)"
proof -
  define t where "t = nat (tenths w)"
  have fmt: "format_1f w = str_nat (t div 10) @ CHR ''.'' # [digit (t mod 10)]"
    using assms by (simp add: format_1f_def t_def Let_def)
  have hd_eq: "hd (format_1f w) = hd (str_nat (t div 10))"
    using str_nat_nonempty [of "t div 10"] by (simp add: fmt)
  have notneg: "hd (format_1f w) \<noteq> CHR ''-''"
    using str_nat_hd [of "t div 10"] digit_val_others unfolding hd_eq by auto
  have tw: "takeWhile (\<lambda>c. c \<noteq> CHR ''.'') (format_1f w) = str_nat (t div 10)"
    unfolding fmt using str_nat_no_dot by (subst takeWhile_append2) auto
  have dw: "dropWhile (\<lambda>c. c \<noteq> CHR ''.'') (format_1f w) = CHR ''.'' # [digit (t mod 10)]"
    unfolding fmt using str_nat_no_dot by (subst dropWhile_append2) auto
  have dv: "digit_val (digit (t mod 10)) = Some (t mod 10)"
    by (rule digit_val_digit) simp
  have "int (t div 10) * 10 + int (t mod 10) = int t"
    by (simp add: zdiv_int zmod_int)
  moreover have "int t = tenths w"
    using tenths_nonneg [OF assms] by (simp add: t_def)
  ultimately have val: "(int (t div 10) * 10 + int (t mod 10)) * 100000 = round_tenths w"
    by (simp add: round_tenths_def)
  show ?thesis
    unfolding py_float_def Let_def
    using notneg tw dw dv val str_nat_nonempty [of "t div 10"]
    by (simp add: parse_digits_str_nat)
qed

lemma format_1f_nonempty: "format_1f w \<noteq> []"
  by (simp add: format_1f_def Let_def)

lemma format_1f_nospace:
  assumes "c \<in> set (format_1f w)"
  shows "\<not> isspace c"
proof -
  define t where "t = nat (tenths \<bar>w\<bar>)"
  have m: "t mod 10 < 10" by simp
  have "c = CHR ''-'' \<or> c \<in> set (str_nat (t div 10)) \<or> c = CHR ''.'' \<or> c = digit (t mod 10)"
    using assms by (auto simp: format_1f_def Let_def t_def split: if_splits)
  moreover have "\<not> isspace CHR ''-''" "\<not> isspace CHR ''.''"
    by (simp_all add: isspace_def whitespace_def)
  moreover have "\<not> isspace (digit (t mod 10))"
    using digit_val_digit [OF m] digit_val_isspace by fastforce
  moreover have "c \<in> set (str_nat (t div 10)) \<Longrightarrow> \<not> isspace c"
    using str_nat_digits digit_val_isspace by blast
  ultimately show ?thesis by blast
qed

lemma words_nospace:
  "\<forall>c \<in> set s. \<not> isspace c \<Longrightarrow> words cur (s @ rest) = words (cur @ s) rest"
  by (induction s arbitrary: cur) simp_all

definition daily_limit_message :: "int \<Rightarrow> string" where
  "daily_limit_message cpd = ''Daily limit reached ('' @ str_int cpd @ '' calls)''"

definition rate_limit_message :: "int \<Rightarrow> string" where
  "rate_limit_message wait_time = ''Rate limit reached. Wait '' @ format_1f wait_time @ '' seconds''"

lemma split_rate_limit_message:
  "split (rate_limit_message w) =
     [''Rate'', ''limit'', ''reached.'', ''Wait'', format_1f w, ''seconds'']"
proof -
  have "words [] (format_1f w @ '' seconds'') = words (format_1f w) '' seconds''"
    using words_nospace [of "format_1f w" "[]" "'' seconds''"] format_1f_nospace by simp
  then show ?thesis
    using format_1f_nonempty [of w]
    by (simp add: split_def rate_limit_message_def isspace_def whitespace_def)
qed

lemma contains_rate_limit_message: "contains ''Wait'' (rate_limit_message w)"
  by (simp add: rate_limit_message_def)

lemma contains_set: "contains pat s \<Longrightarrow> set pat \<subseteq> set s"
proof (induction s)
  case Nil
  then show ?case by simp
next
  case (Cons c cs)
  show ?case
  proof (cases "take (length pat) (c # cs) = pat")
    case True
    then have "set pat = set (take (length pat) (c # cs))" by simp
    then show ?thesis using set_take_subset by fast
  next
    case False
    then show ?thesis using Cons by auto
  qed
qed

lemma not_contains_daily_limit_message: "\<not> contains ''Wait'' (daily_limit_message cpd)"
proof
  assume "contains ''Wait'' (daily_limit_message cpd)"
  then have "set ''Wait'' \<subseteq> set (daily_limit_message cpd)"
    by (rule contains_set)
  then have "CHR ''W'' \<in> set (daily_limit_message cpd)" by simp
  then have "CHR ''W'' \<in> set (str_int cpd)" by (simp add: daily_limit_message_def)
  then have "CHR ''W'' \<in> set (str_nat (nat (- cpd))) \<or> CHR ''W'' \<in> set (str_nat (nat cpd))"
    by (simp add: str_int_def split: if_splits)
  then show False using str_nat_digits digit_val_others(3) by blast
qed


subsection \<open>The limiter\<close>

text \<open>
  \<^verbatim>\<open>datetime\<close> values are microseconds on the local wall clock; \<open>date\<close> is the calendar day.
  Each method reads \<^verbatim>\<open>datetime.now()\<close> once, as its first statement; the reading is the
  argument \<open>now\<close>.
\<close>

record GroqRateLimiter =
  calls_per_minute :: int
  calls_per_day :: int
  call_times :: "int list"
  daily_calls :: int
  last_reset :: int

definition minute :: int where
  "minute = 60 * second"

definition date :: "int \<Rightarrow> int" where
  "date t = t div (86400 * second)"

definition GroqRateLimiter_init :: "int \<Rightarrow> int \<Rightarrow> int \<Rightarrow> GroqRateLimiter" where
  "GroqRateLimiter_init cpm cpd now =
     \<lparr>calls_per_minute = cpm, calls_per_day = cpd, call_times = [], daily_calls = 0,
      last_reset = now\<rparr>"

definition reset_if_new_day :: "int \<Rightarrow> GroqRateLimiter \<Rightarrow> GroqRateLimiter" where
  "reset_if_new_day now self =
     (if date now > date (last_reset self) then self\<lparr>daily_calls := 0, last_reset := now\<rparr>
      else self)"

definition prune :: "int \<Rightarrow> GroqRateLimiter \<Rightarrow> GroqRateLimiter" where
  "prune now self =
     self\<lparr>call_times := filter (\<lambda>call_time. call_time > now - minute) (call_times self)\<rparr>"

definition can_make_call :: "int \<Rightarrow> GroqRateLimiter \<Rightarrow> (exn + bool \<times> string) \<times> GroqRateLimiter" where
  "can_make_call now self =
     (let s1 = reset_if_new_day now self in
      if daily_calls s1 \<ge> calls_per_day s1 then
        (Inr (False, daily_limit_message (calls_per_day s1)), s1)
      else
        let s2 = prune now s1 in
        if int (length (call_times s2)) \<ge> calls_per_minute s2 then
          (if call_times s2 = [] then (Inl (ValueError ''min() arg is an empty sequence''), s2)
           else
             let oldest_call = min_list (call_times s2);
                 wait_time = oldest_call + minute - now
             in (Inr (False, rate_limit_message wait_time), s2))
        else (Inr (True, ''OK''), s2))"

definition record_call :: "int \<Rightarrow> GroqRateLimiter \<Rightarrow> GroqRateLimiter" where
  "record_call now self =
     self\<lparr>call_times := call_times self @ [now], daily_calls := daily_calls self + 1\<rparr>"

text \<open>\<^verbatim>\<open>xs[-2]\<close>; \<open>None\<close> stands for \<^verbatim>\<open>IndexError\<close>.\<close>

definition index_m2 :: "'a list \<Rightarrow> 'a option" where
  "index_m2 xs = (if length xs < 2 then None else Some (xs ! (length xs - 2)))"

lemma wait_message_parsed:
  assumes "0 \<le> w"
  shows "contains ''Wait'' (rate_limit_message w)"
    and "index_m2 (split (rate_limit_message w)) = Some (format_1f w)"
    and "py_float (format_1f w) = Some (round_tenths w)"
proof -
  show "contains ''Wait'' (rate_limit_message w)"
    by (rule contains_rate_limit_message)
  have "length (split (rate_limit_message w)) = 6"
    by (simp only: split_rate_limit_message list.size length_Cons)
  moreover have "split (rate_limit_message w) ! 4 = format_1f w"
    by (simp only: split_rate_limit_message) simp
  ultimately show "index_m2 (split (rate_limit_message w)) = Some (format_1f w)"
    by (simp add: index_m2_def)
  show "py_float (format_1f w) = Some (round_tenths w)"
    by (rule py_float_format_1f [OF assms])
qed

text \<open>
  The duration read back is less than 0.55 s below the duration itself: 0.05 s for the tenth
  and a crude 0.5 s for the float. With the one-second buffer the sleep outlasts the duration.
\<close>

lemma round_tenths_lower: "w - 550000 \<le> round_tenths w"
proof -
  define P :: int where "P = 2 ^ float_scale w"
  define M where "M = round_half_even (w * P) 1000000"
  define t where "t = round_half_even (10 * M) P"
  have P: "1 \<le> P" by (simp add: P_def)
  have r: "round_tenths w = t * 100000"
    by (simp add: round_tenths_def tenths_def total_seconds_def t_def M_def P_def)
  have 1: "2 * (w * P) - 1000000 \<le> 2 * (M * 1000000)"
    unfolding M_def by (rule round_half_even_lower) simp
  have 2: "2 * (10 * M) - P \<le> 2 * (t * P)"
    unfolding t_def by (rule round_half_even_lower) (use P in simp)
  have "2 * (w * P) - 1100000 * P \<le> 200000 * (t * P)"
    using 1 2 P by linarith
  then have "(w - 550000) * (2 * P) \<le> (t * 100000) * (2 * P)"
    by (simp add: algebra_simps)
  then have "w - 550000 \<le> t * 100000"
    using P by (simp only: mult_le_cancel_right)
  then show ?thesis by (simp add: r)
qed

lemma can_make_call_wait:
  assumes "can_make_call now self = (Inr (False, message), s1)" and "contains ''Wait'' message"
  shows "s1 = prune now (reset_if_new_day now self)"
    and "call_times s1 \<noteq> []"
    and "message = rate_limit_message (min_list (call_times s1) + minute - now)"
    and "daily_calls (reset_if_new_day now self) < calls_per_day (reset_if_new_day now self)"
    and "calls_per_minute s1 \<le> int (length (call_times s1))"
proof -
  let ?s1 = "reset_if_new_day now self"
  have nd: "\<not> calls_per_day ?s1 \<le> daily_calls ?s1"
  proof
    assume "calls_per_day ?s1 \<le> daily_calls ?s1"
    then have "message = daily_limit_message (calls_per_day ?s1)"
      using assms(1) by (auto simp: can_make_call_def Let_def)
    then show False using assms(2) not_contains_daily_limit_message by simp
  qed
  then show "daily_calls ?s1 < calls_per_day ?s1" by simp
  have full: "calls_per_minute (prune now ?s1) \<le> int (length (call_times (prune now ?s1)))"
    using assms(1) nd by (auto simp: can_make_call_def Let_def split: if_splits)
  have ne: "call_times (prune now ?s1) \<noteq> []"
    using assms(1) nd full by (auto simp: can_make_call_def Let_def split: if_splits)
  show s1: "s1 = prune now ?s1"
    using assms(1) nd full ne by (auto simp: can_make_call_def Let_def)
  show "call_times s1 \<noteq> []" using ne s1 by simp
  show "message = rate_limit_message (min_list (call_times s1) + minute - now)"
    using assms(1) nd full ne s1 by (auto simp: can_make_call_def Let_def)
  show "calls_per_minute s1 \<le> int (length (call_times s1))" using full s1 by simp
qed

lemma min_list_mem: "(xs :: int list) \<noteq> [] \<Longrightarrow> min_list xs \<in> set xs"
  using min_list_Min [of xs] Min_in [of "set xs"] by auto

lemma prune_oldest_recent:
  assumes "call_times (prune now s) \<noteq> []"
  shows "0 < min_list (call_times (prune now s)) + minute - now"
proof -
  have "min_list (call_times (prune now s)) \<in> set (call_times (prune now s))"
    using assms by (rule min_list_mem)
  then show ?thesis by (simp add: prune_def)
qed


text \<open>
  \<^verbatim>\<open>wait_if_needed\<close>: check, then sleep and check again, or raise, or record the call. It
  terminates because every sleep outlasts the oldest timestamp still in the window.
\<close>

function wait_if_needed :: "env \<Rightarrow> GroqRateLimiter \<Rightarrow> (exn + bool) \<times> env \<times> GroqRateLimiter" where
  "wait_if_needed e self =
     (let (now, e1) = read_clock e in
      case can_make_call now self of
        (Inl err, s1) \<Rightarrow> (Inl err, e1, s1)
      | (Inr (can_call, message), s1) \<Rightarrow>
          if \<not> can_call then
            (if contains ''Wait'' message then
               (case index_m2 (split message) of
                  None \<Rightarrow> (Inl (IndexError ''list index out of range''), e1, s1)
                | Some tok \<Rightarrow>
                    (case py_float tok of
                       None \<Rightarrow> (Inl (ValueError ''could not convert string to float''), e1, s1)
                     | Some wait_time \<Rightarrow>
                         (case time_sleep (wait_time + 1 * second) e1 of
                            Inl err \<Rightarrow> (Inl err, e1, s1)
                          | Inr e2 \<Rightarrow> wait_if_needed e2 s1)))
             else (Inl (Exception (''Rate limit exceeded: '' @ message)), e1, s1))
          else
            (let (now2, e2) = read_clock e1 in (Inr True, e2, record_call now2 s1)))"
  by pat_completeness auto

lemma read_clock_fields:
  assumes "read_clock e = (now, e1)"
  shows "clock e1 = now" and "clock e \<le> now" and "sleeps e1 = sleeps e"
  using assms by (auto simp: read_clock_def split: list.splits)

lemma length_filter_mono:
  assumes "\<And>x. Q x \<Longrightarrow> R x"
  shows "length (filter Q xs) \<le> length (filter R xs)"
proof -
  have "filter Q xs = filter Q (filter R xs)"
    using assms by (auto intro: filter_cong)
  then show ?thesis by (metis length_filter_le)
qed

lemma call_times_reset [simp]: "call_times (reset_if_new_day now self) = call_times self"
  by (simp add: reset_if_new_day_def)

lemma wait_facts:
  assumes "can_make_call now self = (Inr (False, message), s1)" and "contains ''Wait'' message"
  defines "w \<equiv> min_list (call_times s1) + minute - now"
  shows "0 < w" and "index_m2 (split message) = Some (format_1f w)"
    and "py_float (format_1f w) = Some (round_tenths w)"
proof -
  note f = can_make_call_wait [OF assms(1,2)]
  show pos: "0 < w"
    using prune_oldest_recent [of now "reset_if_new_day now self"] f(1,2) by (simp add: w_def)
  then have "0 \<le> w" by simp
  then show "index_m2 (split message) = Some (format_1f w)"
    and "py_float (format_1f w) = Some (round_tenths w)"
    using wait_message_parsed [of w] f(3) by (simp_all add: w_def)
qed

lemma wait_decreases:
  assumes rc: "read_clock e = (now, e1)"
    and cm: "can_make_call now self = (Inr (False, message), s1)"
    and wt: "contains ''Wait'' message"
    and tok: "index_m2 (split message) = Some tok"
    and fl: "py_float tok = Some wait_time"
    and sl: "time_sleep (wait_time + 1 * second) e1 = Inr e2"
  shows "length (filter (\<lambda>t. t > clock e2 - minute) (call_times s1)) <
         length (filter (\<lambda>t. t > clock e - minute) (call_times self))"
proof -
  define w where "w = min_list (call_times s1) + minute - now"
  note f = can_make_call_wait [OF cm wt]
  note g = wait_facts [OF cm wt, folded w_def]
  have "wait_time = round_tenths w" using g(2,3) tok fl by simp
  then have c2: "clock e2 = now + round_tenths w + second"
    using sl read_clock_fields(1) [OF rc] by (auto simp: time_sleep_def split: if_splits)
  have ts: "call_times s1 = filter (\<lambda>t. t > now - minute) (call_times self)"
    using f(1) by (simp add: prune_def)
  have "min_list (call_times s1) \<in> set (call_times s1)"
    using f(2) by (rule min_list_mem)
  moreover have "\<not> min_list (call_times s1) > clock e2 - minute"
    using round_tenths_lower [of w] by (simp add: c2 w_def second_def)
  ultimately have "length (filter (\<lambda>t. t > clock e2 - minute) (call_times s1)) <
      length (call_times s1)"
    by (rule length_filter_less)
  moreover have "length (call_times s1) \<le>
      length (filter (\<lambda>t. t > clock e - minute) (call_times self))"
    unfolding ts using read_clock_fields(2) [OF rc] by (intro length_filter_mono) simp
  ultimately show ?thesis by simp
qed

termination wait_if_needed
proof (relation "measure (\<lambda>(e, self). length (filter (\<lambda>t. t > clock e - minute) (call_times self)))")
  show "wf (measure (\<lambda>(e, self). length (filter (\<lambda>t. t > clock e - minute) (call_times self))))"
    by simp
next
  fix e self x now e1 res s1 b can_call message tok wait_time e2
  assume a: "x = read_clock e" "(now, e1) = x" "(res, s1) = can_make_call now self"
    "res = Inr b" "(can_call, message) = b" "\<not> can_call"
    and wt: "contains ''Wait'' message" and tok: "index_m2 (split message) = Some tok"
    and fl: "py_float tok = Some wait_time"
    and sl: "time_sleep (wait_time + 1 * second) e1 = Inr e2"
  from a have rc: "read_clock e = (now, e1)"
    and cm: "can_make_call now self = (Inr (False, message), s1)"
    by auto
  show "((e2, s1), (e, self)) \<in>
      measure (\<lambda>(e, self). length (filter (\<lambda>t. t > clock e - minute) (call_times self)))"
    using wait_decreases [OF rc cm wt tok fl sl] by simp
qed

declare wait_if_needed.simps [simp del]

subsection \<open>One check, read as a verdict\<close>

text \<open>
  What one pass through \<^verbatim>\<open>can_make_call\<close> decides, and what \<^verbatim>\<open>wait_if_needed\<close> does with
  it, freed from the message text: \<open>wait_if_needed_unfold\<close> proves that the code above behaves
  so. \<open>checked\<close> is the limiter after the day reset and the pruning, \<open>backoff\<close> the duration
  slept.
\<close>

datatype verdict = Quota | NoOldest | Wait int | Admit

definition check :: "int \<Rightarrow> GroqRateLimiter \<Rightarrow> verdict" where
  "check now self =
     (let s1 = reset_if_new_day now self in
      if calls_per_day s1 \<le> daily_calls s1 then Quota
      else
        let ts = call_times (prune now s1) in
        if calls_per_minute s1 \<le> int (length ts) then
          (if ts = [] then NoOldest else Wait (min_list ts + minute - now))
        else Admit)"

definition checked :: "int \<Rightarrow> GroqRateLimiter \<Rightarrow> GroqRateLimiter" where
  "checked now self = prune now (reset_if_new_day now self)"

definition slept :: "int \<Rightarrow> env \<Rightarrow> env" where
  "slept d e = e\<lparr>clock := clock e + d, sleeps := sleeps e @ [d]\<rparr>"

definition backoff :: "int \<Rightarrow> int" where
  "backoff w = round_tenths w + 1 * second"

lemma limits_reset [simp]:
  "calls_per_minute (reset_if_new_day now self) = calls_per_minute self"
  "calls_per_day (reset_if_new_day now self) = calls_per_day self"
  by (simp_all add: reset_if_new_day_def)

lemma fields_prune [simp]:
  "calls_per_minute (prune now self) = calls_per_minute self"
  "calls_per_day (prune now self) = calls_per_day self"
  "daily_calls (prune now self) = daily_calls self"
  "last_reset (prune now self) = last_reset self"
  by (simp_all add: prune_def)

lemma can_make_call_check:
  "can_make_call now self =
     (case check now self of
        Quota \<Rightarrow> (Inr (False, daily_limit_message (calls_per_day self)), reset_if_new_day now self)
      | NoOldest \<Rightarrow> (Inl (ValueError ''min() arg is an empty sequence''), checked now self)
      | Wait w \<Rightarrow> (Inr (False, rate_limit_message w), checked now self)
      | Admit \<Rightarrow> (Inr (True, ''OK''), checked now self))"
  by (simp add: can_make_call_def check_def checked_def Let_def)

lemma check_Wait_pos: "check now self = Wait w \<Longrightarrow> 0 < w"
  using prune_oldest_recent [of now "reset_if_new_day now self"]
  by (auto simp: check_def Let_def split: if_splits)

lemma backoff_pos: "0 < w \<Longrightarrow> w < backoff w"
  using round_tenths_lower [of w] by (simp add: backoff_def second_def)

lemma wait_if_needed_unfold:
  assumes "read_clock e = (now, e1)"
  shows "wait_if_needed e self =
     (case check now self of
        Quota \<Rightarrow>
          (Inl (Exception (''Rate limit exceeded: '' @ daily_limit_message (calls_per_day self))),
           e1, reset_if_new_day now self)
      | NoOldest \<Rightarrow> (Inl (ValueError ''min() arg is an empty sequence''), e1, checked now self)
      | Wait w \<Rightarrow> wait_if_needed (slept (backoff w) e1) (checked now self)
      | Admit \<Rightarrow>
          (Inr True, snd (read_clock e1), record_call (fst (read_clock e1)) (checked now self)))"
proof (cases "check now self")
  case Quota
  then show ?thesis
    using assms not_contains_daily_limit_message [of "calls_per_day self"]
    by (subst wait_if_needed.simps) (simp add: can_make_call_check)
next
  case NoOldest
  then show ?thesis
    using assms by (subst wait_if_needed.simps) (simp add: can_make_call_check)
next
  case (Wait w)
  have pos: "0 < w" using Wait by (rule check_Wait_pos)
  then have p: "contains ''Wait'' (rate_limit_message w)"
    "index_m2 (split (rate_limit_message w)) = Some (format_1f w)"
    "py_float (format_1f w) = Some (round_tenths w)"
    using wait_message_parsed [of w] by simp_all
  have "0 \<le> round_tenths w + 1 * second"
    using backoff_pos [OF pos] pos by (simp add: backoff_def)
  then have "time_sleep (round_tenths w + 1 * second) e1 = Inr (slept (backoff w) e1)"
    by (simp add: time_sleep_def slept_def backoff_def)
  then show ?thesis
    using assms Wait p by (subst wait_if_needed.simps) (simp add: can_make_call_check)
next
  case Admit
  then show ?thesis
    using assms
    by (subst wait_if_needed.simps) (simp add: can_make_call_check split: prod.splits)
qed

lemma wait_if_needed_induct [case_names step]:
  assumes "\<And>e self.
     (\<And>now e1 w. read_clock e = (now, e1) \<Longrightarrow> check now self = Wait w \<Longrightarrow>
        P (slept (backoff w) e1) (checked now self)) \<Longrightarrow> P e self"
  shows "P e self"
proof (induction e self rule: wait_if_needed.induct)
  case (1 e self)
  show ?case
  proof (rule assms)
    fix now e1 w
    assume rc: "read_clock e = (now, e1)" and ck: "check now self = Wait w"
    have pos: "0 < w" using ck by (rule check_Wait_pos)
    then have p: "contains ''Wait'' (rate_limit_message w)"
      "index_m2 (split (rate_limit_message w)) = Some (format_1f w)"
      "py_float (format_1f w) = Some (round_tenths w)"
      using wait_message_parsed [of w] by simp_all
    have "0 \<le> round_tenths w + 1 * second"
      using backoff_pos [OF pos] pos by (simp add: backoff_def)
    then have sl: "time_sleep (round_tenths w + 1 * second) e1 = Inr (slept (backoff w) e1)"
      by (simp add: time_sleep_def slept_def backoff_def)
    have cm: "(Inr (False, rate_limit_message w), checked now self) = can_make_call now self"
      using ck by (simp add: can_make_call_check)
    show "P (slept (backoff w) e1) (checked now self)"
      by (rule "1.IH" [OF refl rc [symmetric] cm refl refl _ p(1) p(2) p(3) sl]) simp
  qed
qed


lemma filter_recent_twice:
  assumes "(c :: int) \<le> n"
  shows "filter (\<lambda>t. t > n - minute) (filter (\<lambda>t. t > c - minute) xs) =
         filter (\<lambda>t. t > n - minute) xs"
  using assms by (auto simp: filter_filter intro: filter_cong)

lemma call_times_checked: "call_times (checked now self) = filter (\<lambda>t. t > now - minute) (call_times self)"
  by (simp add: checked_def prune_def)

lemma read_clock_twice:
  "clock (snd (read_clock e)) = fst (read_clock e)" "clock e \<le> fst (read_clock e)"
  "sleeps (snd (read_clock e)) = sleeps e"
  by (auto simp: read_clock_def split: list.splits)

text \<open>A failed attempt records nothing.\<close>

definition untouched :: "env \<Rightarrow> GroqRateLimiter \<Rightarrow> env \<Rightarrow> GroqRateLimiter \<Rightarrow> bool" where
  "untouched e self e' s' \<longleftrightarrow>
     calls_per_minute s' = calls_per_minute self \<and> calls_per_day s' = calls_per_day self \<and>
     clock e \<le> clock e' \<and>
     (daily_calls s' = daily_calls self \<and> last_reset s' = last_reset self \<or>
      daily_calls s' = 0 \<and> date (last_reset self) < date (last_reset s')) \<and>
     (call_times s' = call_times self \<or>
      (\<exists>now. clock e \<le> now \<and> now \<le> clock e' \<and>
         call_times s' = filter (\<lambda>t. t > now - minute) (call_times self)))"

lemma untouched_reset:
  "clock e \<le> now \<Longrightarrow> clock e1 = now \<Longrightarrow> untouched e self e1 (reset_if_new_day now self)"
  by (auto simp: untouched_def reset_if_new_day_def)

lemma untouched_checked:
  assumes "clock e \<le> now" and "clock e1 = now"
  shows "untouched e self e1 (checked now self)"
proof -
  have ct: "\<exists>n. clock e \<le> n \<and> n \<le> clock e1 \<and>
      call_times (checked now self) = filter (\<lambda>t. t > n - minute) (call_times self)"
    using assms by (intro exI [of _ now]) (simp add: call_times_checked)
  have day: "daily_calls (checked now self) = daily_calls self \<and>
        last_reset (checked now self) = last_reset self \<or>
      daily_calls (checked now self) = 0 \<and>
        date (last_reset self) < date (last_reset (checked now self))"
    by (simp add: checked_def reset_if_new_day_def)
  have "calls_per_minute (checked now self) = calls_per_minute self"
    "calls_per_day (checked now self) = calls_per_day self"
    by (simp_all add: checked_def)
  then show ?thesis
    unfolding untouched_def using ct day assms by blast
qed

lemma untouched_trans:
  assumes "untouched e self e1 s1" and "untouched e1 s1 e2 s2"
  shows "untouched e self e2 s2"
proof -
  have lim: "calls_per_minute s2 = calls_per_minute self" "calls_per_day s2 = calls_per_day self"
    "clock e \<le> clock e2"
    using assms by (auto simp: untouched_def)
  have day: "daily_calls s2 = daily_calls self \<and> last_reset s2 = last_reset self \<or>
      daily_calls s2 = 0 \<and> date (last_reset self) < date (last_reset s2)"
    using assms unfolding untouched_def by (elim conjE disjE) auto
  have ct1: "call_times s1 = call_times self \<or>
      (\<exists>now. clock e \<le> now \<and> now \<le> clock e1 \<and>
         call_times s1 = filter (\<lambda>t. t > now - minute) (call_times self))"
    and ct2: "call_times s2 = call_times s1 \<or>
      (\<exists>now. clock e1 \<le> now \<and> now \<le> clock e2 \<and>
         call_times s2 = filter (\<lambda>t. t > now - minute) (call_times s1))"
    and c1: "clock e \<le> clock e1" and c2: "clock e1 \<le> clock e2"
    using assms by (auto simp: untouched_def)
  have ct: "call_times s2 = call_times self \<or>
      (\<exists>now. clock e \<le> now \<and> now \<le> clock e2 \<and>
         call_times s2 = filter (\<lambda>t. t > now - minute) (call_times self))"
  proof (cases "call_times s2 = call_times s1")
    case same: True
    show ?thesis
    proof (cases "call_times s1 = call_times self")
      case True
      then show ?thesis using same by simp
    next
      case False
      then obtain n1 where n1: "clock e \<le> n1" "n1 \<le> clock e1"
          "call_times s1 = filter (\<lambda>t. t > n1 - minute) (call_times self)"
        using ct1 by blast
      have "n1 \<le> clock e2" using n1(2) c2 by simp
      then show ?thesis using n1(1,3) same by auto
    qed
  next
    case False
    then obtain n2 where n2: "clock e1 \<le> n2" "n2 \<le> clock e2"
        "call_times s2 = filter (\<lambda>t. t > n2 - minute) (call_times s1)"
      using ct2 by blast
    show ?thesis
    proof (cases "call_times s1 = call_times self")
      case True
      have "clock e \<le> n2" using n2(1) c1 by simp
      then show ?thesis using n2(2,3) True by auto
    next
      case False
      then obtain n1 where n1: "clock e \<le> n1" "n1 \<le> clock e1"
          "call_times s1 = filter (\<lambda>t. t > n1 - minute) (call_times self)"
        using ct1 by blast
      have "n1 \<le> n2" using n1(2) n2(1) by simp
      then have "call_times s2 = filter (\<lambda>t. t > n2 - minute) (call_times self)"
        using n1(3) n2(3) filter_recent_twice by simp
      moreover have "clock e \<le> n2" using c1 n2(1) by simp
      ultimately show ?thesis using n2(2) by blast
    qed
  qed
  show ?thesis unfolding untouched_def using lim day ct by blast
qed

lemma untouched_slept:
  assumes "untouched e self e1 s1" and "0 \<le> d"
  shows "untouched e self (slept d e1) s1"
  using assms by (auto simp: untouched_def slept_def)

lemma wait_if_needed_failure:
  "wait_if_needed e self = (Inl err, e', s') \<Longrightarrow> untouched e self e' s'"
proof (induction e self rule: wait_if_needed_induct)
  case (step e self)
  obtain now e1 where rc: "read_clock e = (now, e1)" by (cases "read_clock e")
  note c = read_clock_fields [OF rc]
  show ?case
  proof (cases "check now self")
    case Quota
    then show ?thesis
      using step.prems wait_if_needed_unfold [OF rc, of self] untouched_reset [OF c(2) c(1), of self]
      by auto
  next
    case NoOldest
    then show ?thesis
      using step.prems wait_if_needed_unfold [OF rc, of self] untouched_checked [OF c(2) c(1), of self]
      by auto
  next
    case (Wait w)
    have "0 \<le> backoff w" using backoff_pos [OF check_Wait_pos [OF Wait]] check_Wait_pos [OF Wait] by simp
    then have a: "untouched e self (slept (backoff w) e1) (checked now self)"
      using untouched_checked [OF c(2) c(1)] untouched_slept by simp
    have "wait_if_needed (slept (backoff w) e1) (checked now self) = (Inl err, e', s')"
      using step.prems wait_if_needed_unfold [OF rc, of self] Wait by simp
    then have "untouched (slept (backoff w) e1) (checked now self) e' s'"
      by (rule step.IH [OF rc Wait])
    then show ?thesis using a untouched_trans by blast
  next
    case Admit
    then show ?thesis
      using step.prems wait_if_needed_unfold [OF rc, of self] by simp
  qed
qed


lemma wait_if_needed_clock:
  "wait_if_needed e self = (res, e', s') \<Longrightarrow> clock e \<le> clock e'"
proof (induction e self rule: wait_if_needed_induct)
  case (step e self)
  obtain now e1 where rc: "read_clock e = (now, e1)" by (cases "read_clock e")
  note c = read_clock_fields [OF rc]
  show ?case
  proof (cases "check now self")
    case Quota
    then show ?thesis
      using step.prems wait_if_needed_unfold [OF rc, of self] c by auto
  next
    case NoOldest
    then show ?thesis
      using step.prems wait_if_needed_unfold [OF rc, of self] c by auto
  next
    case (Wait w)
    have "0 \<le> backoff w" using backoff_pos [OF check_Wait_pos [OF Wait]] check_Wait_pos [OF Wait] by simp
    then have "clock e \<le> clock (slept (backoff w) e1)"
      using c by (simp add: slept_def)
    moreover have "wait_if_needed (slept (backoff w) e1) (checked now self) = (res, e', s')"
      using step.prems wait_if_needed_unfold [OF rc, of self] Wait by simp
    then have "clock (slept (backoff w) e1) \<le> clock e'"
      by (rule step.IH [OF rc Wait])
    ultimately show ?thesis by simp
  next
    case Admit
    then show ?thesis
      using step.prems wait_if_needed_unfold [OF rc, of self] c read_clock_twice [of e1]
      by auto
  qed
qed

lemma date_mono: "a \<le> b \<Longrightarrow> date a \<le> date b"
  by (simp add: date_def second_def zdiv_mono1)

lemma no_reset: "date now \<le> date (last_reset self) \<Longrightarrow> reset_if_new_day now self = self"
  by (simp add: reset_if_new_day_def)

lemma wait_if_needed_counts:
  "wait_if_needed e self = (Inr ok, e', s') \<Longrightarrow> date (clock e') \<le> date (last_reset self) \<Longrightarrow>
   daily_calls s' = daily_calls self + 1 \<and> last_reset s' = last_reset self \<and>
   calls_per_day s' = calls_per_day self"
proof (induction e self rule: wait_if_needed_induct)
  case (step e self)
  obtain now e1 where rc: "read_clock e = (now, e1)" by (cases "read_clock e")
  note c = read_clock_fields [OF rc]
  note u = wait_if_needed_unfold [OF rc, of self]
  show ?case
  proof (cases "check now self")
    case Quota
    then show ?thesis using step.prems(1) u by simp
  next
    case NoOldest
    then show ?thesis using step.prems(1) u by simp
  next
    case (Wait w)
    have rec: "wait_if_needed (slept (backoff w) e1) (checked now self) = (Inr ok, e', s')"
      using step.prems(1) u Wait by simp
    have "0 \<le> backoff w" using backoff_pos [OF check_Wait_pos [OF Wait]] check_Wait_pos [OF Wait] by simp
    then have "now \<le> clock (slept (backoff w) e1)" using c(1) by (simp add: slept_def)
    then have "now \<le> clock e'" using wait_if_needed_clock [OF rec] by simp
    then have "date now \<le> date (last_reset self)"
      using date_mono step.prems(2) by fastforce
    then have same: "checked now self = prune now self"
      by (simp add: checked_def no_reset)
    then have "date (clock e') \<le> date (last_reset (checked now self))"
      using step.prems(2) by simp
    then show ?thesis
      using step.IH [OF rc Wait rec] same by simp
  next
    case Admit
    have e': "e' = snd (read_clock e1)" and s': "s' = record_call (fst (read_clock e1)) (checked now self)"
      using step.prems(1) u Admit by simp_all
    have "now \<le> clock e'" using read_clock_twice(1,2) [of e1] c(1) e' by simp
    then have "date now \<le> date (last_reset self)"
      using date_mono step.prems(2) by fastforce
    then have "checked now self = prune now self"
      by (simp add: checked_def no_reset)
    then show ?thesis by (simp add: s' record_call_def)
  qed
qed


text \<open>
  The sliding window: \<open>h\<close> is every timestamp recorded so far. The limiter's list agrees with
  \<open>h\<close> on the last 60 seconds, and no window of \<open>h\<close> holds more than \<open>calls_per_minute\<close>.
\<close>

definition window :: "int \<Rightarrow> int list \<Rightarrow> int list" where
  "window T ts = filter (\<lambda>t. T - minute < t \<and> t \<le> T) ts"

definition lim_inv :: "int list \<Rightarrow> env \<Rightarrow> GroqRateLimiter \<Rightarrow> bool" where
  "lim_inv h e self \<longleftrightarrow>
     filter (\<lambda>t. t > clock e - minute) h = filter (\<lambda>t. t > clock e - minute) (call_times self) \<and>
     (\<forall>T. int (length (window T h)) \<le> calls_per_minute self)"

lemma recent_later:
  assumes "filter (\<lambda>t. t > c - minute) h = filter (\<lambda>t. t > c - minute) xs" and "(c :: int) \<le> n"
  shows "filter (\<lambda>t. t > n - minute) h = filter (\<lambda>t. t > n - minute) xs"
proof -
  have "filter (\<lambda>t. t > n - minute) (filter (\<lambda>t. t > c - minute) h) =
        filter (\<lambda>t. t > n - minute) (filter (\<lambda>t. t > c - minute) xs)"
    using assms(1) by simp
  then show ?thesis
    using filter_recent_twice [OF assms(2)] by simp
qed

lemma lim_inv_reset:
  assumes "lim_inv h e self" and "clock e \<le> now" and "clock e1 = now"
  shows "lim_inv h e1 (reset_if_new_day now self)"
  using assms recent_later [of "clock e" h "call_times self" now]
  by (simp add: lim_inv_def)

lemma lim_inv_checked:
  assumes "lim_inv h e self" and "clock e \<le> now" and "clock e1 = now"
  shows "lim_inv h e1 (checked now self)"
proof -
  have "filter (\<lambda>t. t > now - minute) h = filter (\<lambda>t. t > now - minute) (call_times self)"
    using assms recent_later [of "clock e" h "call_times self" now] by (simp add: lim_inv_def)
  then have "filter (\<lambda>t. t > clock e1 - minute) h =
      filter (\<lambda>t. t > clock e1 - minute) (call_times (checked now self))"
    using assms(3) by (simp add: call_times_checked)
  moreover have "calls_per_minute (checked now self) = calls_per_minute self"
    by (simp add: checked_def)
  ultimately show ?thesis using assms(1) by (simp add: lim_inv_def)
qed

lemma lim_inv_slept:
  assumes "lim_inv h e self" and "0 \<le> d"
  shows "lim_inv h (slept d e) self"
proof -
  have "clock e \<le> clock (slept d e)" using assms(2) by (simp add: slept_def)
  then show ?thesis
    using assms(1) recent_later [of "clock e" h "call_times self" "clock (slept d e)"]
    by (simp add: lim_inv_def)
qed

lemma lim_inv_admit:
  assumes inv: "lim_inv h e1 (checked now self)" and c1: "clock e1 = now"
    and adm: "check now self = Admit" and c2: "clock e2 = now2" and le: "now \<le> now2"
  shows "lim_inv (h @ [now2]) e2 (record_call now2 (checked now self))"
proof -
  let ?ts = "call_times (checked now self)"
  have rec_now: "filter (\<lambda>t. t > now - minute) h = ?ts"
    using inv c1 by (simp add: lim_inv_def call_times_checked)
  have room: "int (length ?ts) < calls_per_minute self"
    using adm by (auto simp: check_def checked_def Let_def split: if_splits)
  have bound: "\<forall>T. int (length (window T h)) \<le> calls_per_minute self"
    using inv by (simp add: lim_inv_def checked_def)
  have "filter (\<lambda>t. t > now2 - minute) h = filter (\<lambda>t. t > now2 - minute) ?ts"
    using inv c1 le recent_later [of now h ?ts now2] by (simp add: lim_inv_def)
  then have agree: "filter (\<lambda>t. t > clock e2 - minute) (h @ [now2]) =
      filter (\<lambda>t. t > clock e2 - minute) (call_times (record_call now2 (checked now self)))"
    using c2 by (simp add: record_call_def minute_def second_def)
  have win: "int (length (window T (h @ [now2]))) \<le> calls_per_minute self" for T
  proof (cases "T - minute < now2 \<and> now2 \<le> T")
    case False
    then have "window T (h @ [now2]) = window T h" by (auto simp: window_def)
    then show ?thesis using bound by simp
  next
    case True
    then have "now \<le> T" using le by simp
    then have "length (window T h) \<le> length (filter (\<lambda>t. t > now - minute) h)"
      unfolding window_def by (intro length_filter_mono) simp
    then have "int (length (window T h)) < calls_per_minute self"
      using room rec_now by simp
    moreover have "window T (h @ [now2]) = window T h @ [now2]"
      using True by (simp add: window_def)
    ultimately show ?thesis by simp
  qed
  have "calls_per_minute (record_call now2 (checked now self)) = calls_per_minute self"
    by (simp add: record_call_def checked_def)
  then show ?thesis using agree win by (simp add: lim_inv_def)
qed

definition newly_recorded :: "exn + bool \<Rightarrow> GroqRateLimiter \<Rightarrow> int list" where
  "newly_recorded res s' = (case res of Inl err \<Rightarrow> [] | Inr ok \<Rightarrow> [last (call_times s')])"

lemma wait_if_needed_inv:
  "lim_inv h e self \<Longrightarrow> wait_if_needed e self = (res, e', s') \<Longrightarrow>
   lim_inv (h @ newly_recorded res s') e' s'"
proof (induction e self rule: wait_if_needed_induct)
  case (step e self)
  obtain now e1 where rc: "read_clock e = (now, e1)" by (cases "read_clock e")
  note c = read_clock_fields [OF rc]
  note u = wait_if_needed_unfold [OF rc, of self]
  show ?case
  proof (cases "check now self")
    case Quota
    then show ?thesis
      using step.prems u lim_inv_reset [OF step.prems(1) c(2) c(1)]
      by (auto simp: newly_recorded_def)
  next
    case NoOldest
    then show ?thesis
      using step.prems u lim_inv_checked [OF step.prems(1) c(2) c(1)]
      by (auto simp: newly_recorded_def)
  next
    case (Wait w)
    have rec: "wait_if_needed (slept (backoff w) e1) (checked now self) = (res, e', s')"
      using step.prems(2) u Wait by simp
    have "0 \<le> backoff w" using backoff_pos [OF check_Wait_pos [OF Wait]] check_Wait_pos [OF Wait] by simp
    then have "lim_inv h (slept (backoff w) e1) (checked now self)"
      using lim_inv_checked [OF step.prems(1) c(2) c(1)] lim_inv_slept by simp
    then show ?thesis by (rule step.IH [OF rc Wait _ rec])
  next
    case Admit
    define now2 where "now2 = fst (read_clock e1)"
    have e': "e' = snd (read_clock e1)" and s': "s' = record_call now2 (checked now self)"
      and res: "res = Inr True"
      using step.prems(2) u Admit by (simp_all add: now2_def)
    have n2: "clock e' = now2" "now \<le> now2"
      using read_clock_twice(1,2) [of e1] c(1) e' by (simp_all add: now2_def)
    have "lim_inv (h @ [now2]) e' (record_call now2 (checked now self))"
      by (rule lim_inv_admit [OF lim_inv_checked [OF step.prems(1) c(2) c(1)] c(1) Admit n2])
    moreover have "newly_recorded res s' = [now2]"
      by (simp add: newly_recorded_def res s' record_call_def)
    ultimately show ?thesis using s' by simp
  qed
qed


text \<open>
  \<open>n\<close> successive attempts; each admitted one is reported with the timestamp it recorded.
\<close>

fun attempts :: "nat \<Rightarrow> env \<Rightarrow> GroqRateLimiter \<Rightarrow> (exn + int) list \<times> env \<times> GroqRateLimiter" where
  "attempts 0 e self = ([], e, self)"
| "attempts (Suc n) e self =
     (case wait_if_needed e self of
        (res, e1, s1) \<Rightarrow>
          (case attempts n e1 s1 of
             (rs, e2, s2) \<Rightarrow>
               ((case res of Inl err \<Rightarrow> Inl err | Inr ok \<Rightarrow> Inr (last (call_times s1))) # rs,
                e2, s2)))"

fun admitted :: "(exn + int) list \<Rightarrow> int list" where
  "admitted [] = []"
| "admitted (Inl err # rs) = admitted rs"
| "admitted (Inr t # rs) = t # admitted rs"

lemma attempts_inv:
  "lim_inv h e self \<Longrightarrow> attempts n e self = (rs, e', s') \<Longrightarrow> lim_inv (h @ admitted rs) e' s'"
proof (induction n arbitrary: h e self rs e' s')
  case 0
  then show ?case by simp
next
  case (Suc n)
  obtain res e1 s1 where w: "wait_if_needed e self = (res, e1, s1)"
    by (cases "wait_if_needed e self")
  obtain rs1 e2 s2 where a: "attempts n e1 s1 = (rs1, e2, s2)"
    by (cases "attempts n e1 s1")
  have rs: "rs = (case res of Inl err \<Rightarrow> Inl err | Inr ok \<Rightarrow> Inr (last (call_times s1))) # rs1"
    and e': "e' = e2" and s': "s' = s2"
    using Suc.prems(2) w a by simp_all
  have "admitted rs = newly_recorded res s1 @ admitted rs1"
    by (cases res) (simp_all add: rs newly_recorded_def)
  moreover have "lim_inv ((h @ newly_recorded res s1) @ admitted rs1) e2 s2"
    using Suc.IH [OF wait_if_needed_inv [OF Suc.prems(1) w] a] .
  ultimately show ?case by (simp add: e' s')
qed

lemma lim_inv_init: "0 \<le> cpm \<Longrightarrow> lim_inv [] e (GroqRateLimiter_init cpm cpd t0)"
  by (simp add: lim_inv_def GroqRateLimiter_init_def window_def)

lemma attempts_length: "attempts n e self = (rs, e', s') \<Longrightarrow> length rs = n"
  by (induction n arbitrary: e self rs) (auto split: prod.splits)

lemma attempts_clock: "attempts n e self = (rs, e', s') \<Longrightarrow> clock e \<le> clock e'"
proof (induction n arbitrary: e self rs e' s')
  case 0
  then show ?case by simp
next
  case (Suc n)
  obtain res e1 s1 where w: "wait_if_needed e self = (res, e1, s1)"
    by (cases "wait_if_needed e self")
  obtain rs1 e2 s2 where a: "attempts n e1 s1 = (rs1, e2, s2)"
    by (cases "attempts n e1 s1")
  have "e' = e2" using Suc.prems w a by simp
  then show ?case
    using wait_if_needed_clock [OF w] Suc.IH [OF a] by simp
qed

lemma admitted_length: "length (admitted rs) \<le> length rs"
  by (induction rs rule: admitted.induct) simp_all

lemma attempts_counts:
  "attempts n e self = (rs, e', s') \<Longrightarrow> length (admitted rs) = n \<Longrightarrow>
   date (clock e') \<le> date (last_reset self) \<Longrightarrow>
   daily_calls s' = daily_calls self + int n \<and> last_reset s' = last_reset self \<and>
   calls_per_day s' = calls_per_day self"
proof (induction n arbitrary: e self rs e' s')
  case 0
  then show ?case by simp
next
  case (Suc n)
  obtain res e1 s1 where w: "wait_if_needed e self = (res, e1, s1)"
    by (cases "wait_if_needed e self")
  obtain rs1 e2 s2 where a: "attempts n e1 s1 = (rs1, e2, s2)"
    by (cases "attempts n e1 s1")
  have rs: "rs = (case res of Inl err \<Rightarrow> Inl err | Inr ok \<Rightarrow> Inr (last (call_times s1))) # rs1"
    and e': "e' = e2" and s': "s' = s2"
    using Suc.prems(1) w a by simp_all
  have len: "length rs1 = n" using a by (rule attempts_length)
  obtain ok where res: "res = Inr ok"
  proof (cases res)
    case (Inl err)
    then have "length (admitted rs) \<le> n" using admitted_length [of rs1] len by (simp add: rs)
    then show ?thesis using Suc.prems(2) by simp
  next
    case (Inr ok)
    then show ?thesis using that by simp
  qed
  then have adm1: "length (admitted rs1) = n" using Suc.prems(2) by (simp add: rs)
  have "clock e1 \<le> clock e'" using attempts_clock [OF a] e' by simp
  then have d1: "date (clock e1) \<le> date (last_reset self)"
    using date_mono Suc.prems(3) by fastforce
  have first: "daily_calls s1 = daily_calls self + 1" "last_reset s1 = last_reset self"
    "calls_per_day s1 = calls_per_day self"
    using wait_if_needed_counts [OF w [unfolded res] d1] by simp_all
  have "date (clock e2) \<le> date (last_reset s1)" using Suc.prems(3) first(2) e' by simp
  then show ?case
    using Suc.IH [OF a adm1] first by (simp add: s')
qed

lemma quota_fails_at_once:
  assumes "read_clock e = (now, e1)" and "date now \<le> date (last_reset self)"
    and "calls_per_day self \<le> daily_calls self"
  shows "wait_if_needed e self =
           (Inl (Exception (''Rate limit exceeded: Daily limit reached ('' @
                   str_int (calls_per_day self) @ '' calls)'')), e1, self)"
    and "sleeps e1 = sleeps e"
proof -
  have "check now self = Quota"
    using assms(2,3) by (simp add: check_def no_reset)
  then show "wait_if_needed e self =
           (Inl (Exception (''Rate limit exceeded: Daily limit reached ('' @
                   str_int (calls_per_day self) @ '' calls)'')), e1, self)"
    using wait_if_needed_unfold [OF assms(1), of self] no_reset [OF assms(2)]
    by (simp add: daily_limit_message_def)
  show "sleeps e1 = sleeps e" by (rule read_clock_fields(3) [OF assms(1)])
qed


lemma wait_if_needed_eval:
  "wait_if_needed e self =
     (case check (fst (read_clock e)) self of
        Quota \<Rightarrow>
          (Inl (Exception (''Rate limit exceeded: '' @ daily_limit_message (calls_per_day self))),
           snd (read_clock e), reset_if_new_day (fst (read_clock e)) self)
      | NoOldest \<Rightarrow>
          (Inl (ValueError ''min() arg is an empty sequence''), snd (read_clock e),
           checked (fst (read_clock e)) self)
      | Wait w \<Rightarrow>
          wait_if_needed (slept (backoff w) (snd (read_clock e))) (checked (fst (read_clock e)) self)
      | Admit \<Rightarrow>
          (Inr True, snd (read_clock (snd (read_clock e))),
           record_call (fst (read_clock (snd (read_clock e)))) (checked (fst (read_clock e)) self)))"
  using wait_if_needed_unfold [of e "fst (read_clock e)" "snd (read_clock e)" self] by simp

definition limiter_one_per_minute :: GroqRateLimiter where
  "limiter_one_per_minute = GroqRateLimiter_init 1 10 0"

lemma first_admission:
  "wait_if_needed env0 limiter_one_per_minute =
     (Inr True, env0, limiter_one_per_minute\<lparr>call_times := [0], daily_calls := 1\<rparr>)"
  by (subst wait_if_needed_eval)
    (simp add: limiter_one_per_minute_def GroqRateLimiter_init_def env0_def read_clock_def
      check_def checked_def reset_if_new_day_def prune_def record_call_def date_def)

lemma second_admission:
  "wait_if_needed env0 (limiter_one_per_minute\<lparr>call_times := [0], daily_calls := 1\<rparr>) =
     (Inr True, env0\<lparr>clock := 61000000, sleeps := [61000000]\<rparr>,
      limiter_one_per_minute\<lparr>call_times := [61000000], daily_calls := 2\<rparr>)"
  apply (subst wait_if_needed_eval)
  apply (simp add: limiter_one_per_minute_def GroqRateLimiter_init_def env0_def read_clock_def
      check_def checked_def reset_if_new_day_def prune_def date_def minute_def second_def
      backoff_def round_tenths_examples slept_def)
  apply (subst wait_if_needed_eval)
  apply (simp add: read_clock_def check_def checked_def reset_if_new_day_def prune_def
      record_call_def date_def minute_def second_def)
  done


lemma wait_if_needed_limits:
  "wait_if_needed e self = (res, e', s') \<Longrightarrow>
   calls_per_minute s' = calls_per_minute self \<and> calls_per_day s' = calls_per_day self"
proof (induction e self rule: wait_if_needed_induct)
  case (step e self)
  obtain now e1 where rc: "read_clock e = (now, e1)" by (cases "read_clock e")
  show ?case
    using step.prems wait_if_needed_unfold [OF rc, of self] step.IH [OF rc]
    by (cases "check now self") (auto simp: checked_def record_call_def)
qed

lemma attempts_limits:
  "attempts n e self = (rs, e', s') \<Longrightarrow>
   calls_per_minute s' = calls_per_minute self \<and> calls_per_day s' = calls_per_day self"
proof (induction n arbitrary: e self rs e' s')
  case 0
  then show ?case by simp
next
  case (Suc n)
  obtain res e1 s1 where w: "wait_if_needed e self = (res, e1, s1)"
    by (cases "wait_if_needed e self")
  obtain rs1 e2 s2 where a: "attempts n e1 s1 = (rs1, e2, s2)"
    by (cases "attempts n e1 s1")
  have "s' = s2" using Suc.prems w a by simp
  then show ?case
    using wait_if_needed_limits [OF w] Suc.IH [OF a] by simp
qed

subsection \<open>Properties of the limiter\<close>

text \<open>
  One caller at a time. Start from a fresh limiter and make any number of admission attempts,
  each finished before the next begins, on a clock that does not run backwards, with any
  time passing between clock readings. Of the timestamps recorded by the admitted calls, at
  most \<open>calls_per_minute\<close> lie in any trailing 60-second window \<open>(T - 60 s, T]\<close>.
\<close>

lemma sequential_window_bound:
  assumes "0 \<le> cpm"
  shows "int (length (window T (admitted (fst (attempts n e (GroqRateLimiter_init cpm cpd t0))))))
           \<le> cpm"
proof -
  obtain rs e' s' where a: "attempts n e (GroqRateLimiter_init cpm cpd t0) = (rs, e', s')"
    by (cases "attempts n e (GroqRateLimiter_init cpm cpd t0)")
  have "lim_inv ([] @ admitted rs) e' s'"
    using attempts_inv [OF lim_inv_init [OF assms] a] .
  moreover have "calls_per_minute s' = cpm"
    using attempts_limits [OF a] by (simp add: GroqRateLimiter_init_def)
  ultimately show ?thesis
    using a by (simp add: lim_inv_def)
qed

lemma sequential_admissions:
  "fst (attempts 2 env0 limiter_one_per_minute) = [Inr 0, Inr 61000000] \<and>
   sleeps (fst (snd (attempts 2 env0 limiter_one_per_minute))) = [61000000]"
  using first_admission second_admission by (simp add: numeral_2_eq_2)

text \<open>
  C6. When \<open>daily_calls\<close> has reached \<open>calls_per_day\<close> and the day has not changed since
  \<open>last_reset\<close>, \<^verbatim>\<open>wait_if_needed\<close> raises the quota exception at once: nothing is slept and
  the limiter is left as it was. In particular, after \<open>calls_per_day\<close> admitted calls on the
  day the limiter was created, the next attempt on that day fails in this way.
\<close>

theorem daily_quota_fails_without_blocking:
  "(\<forall>e self now e1.
      read_clock e = (now, e1) \<and> date now \<le> date (last_reset self) \<and>
      calls_per_day self \<le> daily_calls self \<longrightarrow>
        wait_if_needed e self =
          (Inl (Exception (''Rate limit exceeded: Daily limit reached ('' @
                  str_int (calls_per_day self) @ '' calls)'')), e1, self) \<and>
        sleeps e1 = sleeps e) \<and>
   (\<forall>n e cpm t0 rs e' s' now e1.
      attempts n e (GroqRateLimiter_init cpm (int n) t0) = (rs, e', s') \<and>
      length (admitted rs) = n \<and> read_clock e' = (now, e1) \<and> date now \<le> date t0 \<longrightarrow>
        wait_if_needed e' s' =
          (Inl (Exception (''Rate limit exceeded: Daily limit reached ('' @
                  str_int (int n) @ '' calls)'')), e1, s') \<and>
        sleeps e1 = sleeps e')"
proof -
  have seq: "wait_if_needed e' s' =
          (Inl (Exception (''Rate limit exceeded: Daily limit reached ('' @
                  str_int (int n) @ '' calls)'')), e1, s') \<and>
        sleeps e1 = sleeps e'"
    if h: "attempts n e (GroqRateLimiter_init cpm (int n) t0) = (rs, e', s')"
      "length (admitted rs) = n" "read_clock e' = (now, e1)" "date now \<le> date t0"
    for n e cpm t0 rs e' s' now e1
  proof -
    have "clock e' \<le> now" by (rule read_clock_fields(2) [OF h(3)])
    then have "date (clock e') \<le> date (last_reset (GroqRateLimiter_init cpm (int n) t0))"
      using date_mono h(4) by (fastforce simp: GroqRateLimiter_init_def)
    then have c: "daily_calls s' = int n" "last_reset s' = t0" "calls_per_day s' = int n"
      using attempts_counts [OF h(1,2)] by (simp_all add: GroqRateLimiter_init_def)
    show ?thesis
      using quota_fails_at_once [OF h(3), of s'] c h(4) by simp
  qed
  show ?thesis
    using quota_fails_at_once seq by blast
qed

theorem daily_quota_fails_without_blocking_witness:
  "attempts 1 env0 (GroqRateLimiter_init 1 (int 1) 0) =
     ([Inr 0], env0, limiter_one_per_minute\<lparr>calls_per_day := 1, call_times := [0], daily_calls := 1\<rparr>) \<and>
   length (admitted [Inr 0 :: exn + int]) = 1 \<and> read_clock env0 = (0, env0) \<and>
   date 0 \<le> date 0 \<and>
   wait_if_needed env0
       (limiter_one_per_minute\<lparr>calls_per_day := 1, call_times := [0], daily_calls := 1\<rparr>) =
     (Inl (Exception ''Rate limit exceeded: Daily limit reached (1 calls)''), env0,
      limiter_one_per_minute\<lparr>calls_per_day := 1, call_times := [0], daily_calls := 1\<rparr>)"
proof -
  have a: "attempts 1 env0 (GroqRateLimiter_init 1 (int 1) 0) =
     ([Inr 0], env0, limiter_one_per_minute\<lparr>calls_per_day := 1, call_times := [0], daily_calls := 1\<rparr>)"
    apply simp
    apply (subst wait_if_needed_eval)
    apply (simp add: limiter_one_per_minute_def GroqRateLimiter_init_def env0_def read_clock_def
      check_def checked_def reset_if_new_day_def prune_def record_call_def date_def)
    done
  have r: "read_clock env0 = (0, env0)" by (simp add: env0_def read_clock_def)
  have s: "str_int (int 1) = ''1''" by (simp add: str_int_def str_nat.simps digit_def)
  show ?thesis
    using daily_quota_fails_without_blocking
      [THEN conjunct2, rule_format, of 1 env0 1 0 "[Inr 0]" env0
        "limiter_one_per_minute\<lparr>calls_per_day := 1, call_times := [0], daily_calls := 1\<rparr>"
        0 env0] a r s
    by simp
qed

text \<open>
  C10. An attempt that fails (with the daily-quota exception, or any other) records nothing:
  the limits are unchanged; the daily counter is either unchanged or was reset to 0 because a
  new day began; and \<open>call_times\<close> is either unchanged or is the old list with the timestamps
  older than 60 seconds (at some check of this attempt) removed. No timestamp is appended and
  the counter is not incremented.
\<close>

theorem failed_admission_consumes_no_slot:
  assumes "wait_if_needed e self = (Inl err, e', s')"
  shows "calls_per_minute s' = calls_per_minute self \<and> calls_per_day s' = calls_per_day self \<and>
         (daily_calls s' = daily_calls self \<and> last_reset s' = last_reset self \<or>
          daily_calls s' = 0 \<and> date (last_reset self) < date (last_reset s')) \<and>
         (call_times s' = call_times self \<or>
          (\<exists>now. clock e \<le> now \<and> now \<le> clock e' \<and>
             call_times s' = filter (\<lambda>call_time. call_time > now - minute) (call_times self)))"
  using wait_if_needed_failure [OF assms] by (simp add: untouched_def)

definition limiter_spent :: GroqRateLimiter where
  "limiter_spent =
     \<lparr>calls_per_minute = 60, calls_per_day = 2, call_times = [5, 7], daily_calls = 2,
      last_reset = 0\<rparr>"

theorem failed_admission_consumes_no_slot_witness:
  "wait_if_needed (env0\<lparr>clock := 9\<rparr>) limiter_spent =
     (Inl (Exception ''Rate limit exceeded: Daily limit reached (2 calls)''),
      env0\<lparr>clock := 9\<rparr>, limiter_spent) \<and>
   call_times limiter_spent = [5, 7] \<and> daily_calls limiter_spent = 2"
proof -
  have "wait_if_needed (env0\<lparr>clock := 9\<rparr>) limiter_spent =
     (Inl (Exception ''Rate limit exceeded: Daily limit reached (2 calls)''),
      env0\<lparr>clock := 9\<rparr>, limiter_spent)"
    apply (subst wait_if_needed_eval)
    apply (simp add: limiter_spent_def env0_def read_clock_def check_def reset_if_new_day_def
        date_def second_def daily_limit_message_def str_int_def str_nat.simps digit_def)
    done
  then show ?thesis
    using failed_admission_consumes_no_slot
      [of "env0\<lparr>clock := 9\<rparr>" limiter_spent
          "Exception ''Rate limit exceeded: Daily limit reached (2 calls)''"
          "env0\<lparr>clock := 9\<rparr>" limiter_spent]
    by (simp add: limiter_spent_def)
qed

section \<open>Response cache (utils/api_optimizer.py)\<close>

text \<open>
  The library functions the cache and the normaliser call are parameters of the model:
  \<^verbatim>\<open>hashlib.md5(s.encode()).hexdigest()\<close>, \<^verbatim>\<open>json.dump(s)\<close>, \<^verbatim>\<open>json.load(s)\<close> (which
  raises), \<^verbatim>\<open>datetime.isoformat\<close>, \<^verbatim>\<open>datetime.fromisoformat\<close> (\<open>None\<close>: it raises) and
  \<^verbatim>\<open>re.findall(pattern, s, flags=re.DOTALL | re.MULTILINE)\<close>.
\<close>

record stdlib =
  md5_hexdigest :: "string \<Rightarrow> string"
  json_dumps :: "json \<Rightarrow> string"
  json_loads :: "string \<Rightarrow> exn + json"
  isoformat :: "int \<Rightarrow> string"
  fromisoformat :: "string \<Rightarrow> int option"
  findall :: "string \<Rightarrow> string \<Rightarrow> string list"

record APIOptimizer =
  cache_dir :: string
  cache_duration :: int
  last_api_call :: int
  min_call_interval :: int

definition hour :: int where
  "hour = 3600 * second"

definition APIOptimizer_init :: "string \<Rightarrow> APIOptimizer" where
  "APIOptimizer_init dir =
     \<lparr>cache_dir = dir, cache_duration = 2 * hour, last_api_call = 0,
      min_call_interval = 2 * second\<rparr>"

definition get_cache_key :: "stdlib \<Rightarrow> string \<Rightarrow> string \<Rightarrow> string" where
  "get_cache_key L email_content analysis_type =
     analysis_type @ ''_'' @ md5_hexdigest L email_content"

text \<open>\<^verbatim>\<open>os.path.join\<close> of two components.\<close>

definition path_join :: "string \<Rightarrow> string \<Rightarrow> string" where
  "path_join a b =
     (if b \<noteq> [] \<and> hd b = CHR ''/'' then b
      else if a = [] \<or> last a = CHR ''/'' then a @ b
      else a @ ''/'' @ b)"

definition get_cache_path :: "APIOptimizer \<Rightarrow> string \<Rightarrow> string" where
  "get_cache_path self cache_key = path_join (cache_dir self) (cache_key @ ''.json'')"

text \<open>
  \<^verbatim>\<open>d[k]\<close>; \<open>None\<close> stands for the \<^verbatim>\<open>KeyError\<close> or \<^verbatim>\<open>TypeError\<close> it raises. A dict is a
  list of pairs with distinct keys.
\<close>

definition subscript :: "json \<Rightarrow> string \<Rightarrow> json option" where
  "subscript d k = (case d of JObject kvs \<Rightarrow> map_of kvs k | _ \<Rightarrow> None)"

definition fs_note :: "fs_op \<Rightarrow> env \<Rightarrow> env" where
  "fs_note op e = e\<lparr>fs_log := fs_log e @ [op]\<rparr>"

text \<open>
  \<^verbatim>\<open>get_cached_result\<close>: every exception inside is caught and turned into a miss. The files
  of the cache directory are \<open>files\<close>; the directory exists (\<^verbatim>\<open>__init__\<close> creates it) and
  can be written and removed from.
\<close>

definition get_cached_result ::
  "stdlib \<Rightarrow> APIOptimizer \<Rightarrow> string \<Rightarrow> string \<Rightarrow> env \<Rightarrow> json option \<times> env" where
  "get_cached_result L self email_content analysis_type e =
     (let cache_key = get_cache_key L email_content analysis_type;
          cache_path = get_cache_path self cache_key;
          e1 = fs_note (Exists cache_path) e
      in case files e1 cache_path of
           None \<Rightarrow> (None, e1)
         | Some text \<Rightarrow>
             (let e2 = fs_note (Read cache_path) e1 in
              case json_loads L text of
                Inl err \<Rightarrow> (None, e2)
              | Inr cached_data \<Rightarrow>
                  (case subscript cached_data ''timestamp'' of
                     Some (JString stamp) \<Rightarrow>
                       (case fromisoformat L stamp of
                          None \<Rightarrow> (None, e2)
                        | Some cached_time \<Rightarrow>
                            (let (now, e3) = read_clock e2 in
                             if now - cached_time > cache_duration self then
                               (None, fs_note (Remove cache_path)
                                        (e3\<lparr>files := (files e3)(cache_path := None)\<rparr>))
                             else
                               (case subscript cached_data ''result'' of
                                  None \<Rightarrow> (None, e3)
                                | Some result \<Rightarrow> (Some result, e3))))
                   | _ \<Rightarrow> (None, e2))))"

definition cache_document :: "stdlib \<Rightarrow> int \<Rightarrow> json \<Rightarrow> string \<Rightarrow> json" where
  "cache_document L now result email_content =
     JObject [(''timestamp'', JString (isoformat L now)), (''result'', result),
              (''email_length'', JInt (int (length email_content)))]"

definition cache_result ::
  "stdlib \<Rightarrow> APIOptimizer \<Rightarrow> string \<Rightarrow> json \<Rightarrow> string \<Rightarrow> env \<Rightarrow> env" where
  "cache_result L self email_content result analysis_type e =
     (let cache_key = get_cache_key L email_content analysis_type;
          cache_path = get_cache_path self cache_key;
          (now, e1) = read_clock e;
          cached_data = cache_document L now result email_content
      in fs_note (Write cache_path)
           (e1\<lparr>files := (files e1)(cache_path \<mapsto> json_dumps L cached_data)\<rparr>))"

definition record_api_call :: "APIOptimizer \<Rightarrow> env \<Rightarrow> APIOptimizer \<times> env" where
  "record_api_call self e = (let (now, e1) = read_clock e in (self\<lparr>last_api_call := now\<rparr>, e1))"

lemma cache_result_stored:
  assumes "read_clock e = (t0, e1)"
  shows "files (cache_result L self content v ty e)
           (get_cache_path self (get_cache_key L content ty)) =
         Some (json_dumps L (cache_document L t0 v content))"
    and "fs_log (cache_result L self content v ty e) =
           fs_log e @ [Write (get_cache_path self (get_cache_key L content ty))]"
    and "clock (cache_result L self content v ty e) = t0"
proof -
  have "fs_log e1 = fs_log e" "clock e1 = t0"
    using assms by (auto simp: read_clock_def split: list.splits)
  then show "files (cache_result L self content v ty e)
           (get_cache_path self (get_cache_key L content ty)) =
         Some (json_dumps L (cache_document L t0 v content))"
    and "fs_log (cache_result L self content v ty e) =
           fs_log e @ [Write (get_cache_path self (get_cache_key L content ty))]"
    and "clock (cache_result L self content v ty e) = t0"
    using assms by (simp_all add: cache_result_def Let_def fs_note_def)
qed

lemma get_cached_result_stored:
  assumes stored: "files e (get_cache_path self (get_cache_key L content ty)) =
                   Some (json_dumps L (cache_document L t0 v content))"
    and lib: "json_loads L (json_dumps L (cache_document L t0 v content)) =
                Inr (cache_document L t0 v content)"
      "fromisoformat L (isoformat L t0) = Some t0"
    and rc: "read_clock e = (t1, e1)"
  shows "get_cached_result L self content ty e =
     (let p = get_cache_path self (get_cache_key L content ty) in
      if t1 - t0 > cache_duration self then
        (None, e1\<lparr>files := (files e)(p := None), fs_log := fs_log e @ [Exists p, Read p, Remove p]\<rparr>)
      else (Some v, e1\<lparr>fs_log := fs_log e @ [Exists p, Read p]\<rparr>))"
proof -
  let ?p = "get_cache_path self (get_cache_key L content ty)"
  let ?e2 = "fs_note (Read ?p) (fs_note (Exists ?p) e)"
  have rc2: "read_clock ?e2 = (t1, e1\<lparr>fs_log := fs_log e @ [Exists ?p, Read ?p]\<rparr>)"
    using rc by (auto simp: read_clock_def fs_note_def split: list.splits)
  have f1: "files e1 = files e"
    using rc by (auto simp: read_clock_def split: list.splits)
  show ?thesis
    unfolding get_cached_result_def Let_def
    using stored lib rc2 f1
    by (simp add: fs_note_def cache_document_def subscript_def)
qed


subsection \<open>Properties of the cache\<close>

text \<open>
  A small instance of the library parameters and of the optimizer, for the examples. It is a
  stand-in, not a JSON library: it writes a dict as its first key and reads back two texts.
\<close>

definition lib0 :: stdlib where
  "lib0 =
     \<lparr>md5_hexdigest = (\<lambda>s. ''5d41402abc4b2a76b9719d911017c592''),
      json_dumps = (\<lambda>d. case d of JObject ((k, v) # kvs) \<Rightarrow> k | _ \<Rightarrow> ''null''),
      json_loads = (\<lambda>s. if s = ''timestamp''
                         then Inr (JObject [(''timestamp'', JString ''1970-01-01T00:00:00''),
                                            (''result'', JObject [(''sentiment'', JString ''positive'')]),
                                            (''email_length'', JInt 5)])
                         else if s = ''[1, 2]'' then Inr (JArray [JInt 1, JInt 2])
                         else Inl (JSONDecodeError ''Expecting value'')),
      isoformat = (\<lambda>t. ''1970-01-01T00:00:00''),
      fromisoformat = (\<lambda>s. if s = ''1970-01-01T00:00:00'' then Some 0 else None),
      findall = (\<lambda>pattern s. [])\<rparr>"

definition optimizer0 :: APIOptimizer where
  "optimizer0 = APIOptimizer_init ''data/cache''"

text \<open>
  C7. Store a payload, then look the same content and analysis type up while the stored file
  is still in place: if the time elapsed between the two clock readings is at most the TTL
  the lookup returns the payload unchanged and leaves the files alone; once it is strictly
  more, the lookup returns a miss and the file is removed. (The JSON and ISO-format library
  functions are parameters; they are assumed to read back the document and the timestamp
  that were written.)
\<close>

theorem cache_round_trip:
  assumes "read_clock e = (t0, e0)"
    and "p = get_cache_path self (get_cache_key L content ty)"
    and "files e' p = files (cache_result L self content v ty e) p"
    and "read_clock e' = (t1, e1)"
    and "json_loads L (json_dumps L (cache_document L t0 v content)) =
           Inr (cache_document L t0 v content)"
    and "fromisoformat L (isoformat L t0) = Some t0"
  shows "(t1 - t0 \<le> cache_duration self \<longrightarrow>
            fst (get_cached_result L self content ty e') = Some v \<and>
            files (snd (get_cached_result L self content ty e')) = files e') \<and>
         (cache_duration self < t1 - t0 \<longrightarrow>
            fst (get_cached_result L self content ty e') = None \<and>
            files (snd (get_cached_result L self content ty e')) = (files e')(p := None))"
proof -
  have stored: "files e' (get_cache_path self (get_cache_key L content ty)) =
      Some (json_dumps L (cache_document L t0 v content))"
    using assms(2,3) cache_result_stored(1) [OF assms(1)] by simp
  have "files e1 = files e'"
    using assms(4) by (auto simp: read_clock_def split: list.splits)
  then show ?thesis
    using get_cached_result_stored [OF stored assms(5,6,4)] assms(2)
    by (simp add: Let_def)
qed

definition payload0 :: json where
  "payload0 = JObject [(''sentiment'', JString ''positive'')]"

definition stored_env :: env where
  "stored_env = (cache_result lib0 optimizer0 ''hello'' payload0 ''sentiment_ai'' env0)\<lparr>ticks := [nat hour]\<rparr>"

theorem cache_round_trip_witness:
  "read_clock env0 = (0, env0) \<and>
   read_clock stored_env = (hour, stored_env\<lparr>clock := hour, ticks := []\<rparr>) \<and>
   json_loads lib0 (json_dumps lib0 (cache_document lib0 0 payload0 ''hello'')) =
     Inr (cache_document lib0 0 payload0 ''hello'') \<and>
   fromisoformat lib0 (isoformat lib0 0) = Some 0 \<and>
   hour - 0 \<le> cache_duration optimizer0 \<and>
   fst (get_cached_result lib0 optimizer0 ''hello'' ''sentiment_ai'' stored_env) = Some payload0"
proof -
  have rc1: "read_clock env0 = (0, env0)"
    by (simp add: env0_def read_clock_def)
  have "clock stored_env = 0"
    using cache_result_stored(3) [OF rc1] by (simp add: stored_env_def)
  then have rc2: "read_clock stored_env = (hour, stored_env\<lparr>clock := hour, ticks := []\<rparr>)"
    by (simp add: read_clock_def stored_env_def hour_def second_def)
  have lib1: "json_loads lib0 (json_dumps lib0 (cache_document lib0 0 payload0 ''hello'')) =
     Inr (cache_document lib0 0 payload0 ''hello'')"
    by (simp add: lib0_def cache_document_def payload0_def)
  have lib2: "fromisoformat lib0 (isoformat lib0 0) = Some 0"
    by (simp add: lib0_def)
  have same: "files stored_env (get_cache_path optimizer0 (get_cache_key lib0 ''hello'' ''sentiment_ai'')) =
      files (cache_result lib0 optimizer0 ''hello'' payload0 ''sentiment_ai'' env0)
        (get_cache_path optimizer0 (get_cache_key lib0 ''hello'' ''sentiment_ai''))"
    by (simp add: stored_env_def)
  have ttl: "hour - 0 \<le> cache_duration optimizer0"
    by (simp add: optimizer0_def APIOptimizer_init_def hour_def second_def)
  show ?thesis
    using cache_round_trip [OF rc1 refl same rc2 lib1 lib2] rc1 rc2 lib1 lib2 ttl
    by simp
qed


section \<open>Sentiment analysis service (services/analysis_service.py)\<close>

record AnalysisResult =
  data :: json
  provider :: string
  latency_seconds :: int

record SentimentAnalysisService =
  router :: LLMRouter
  system_prompt :: string

definition SentimentAnalysisService_init :: "LLMRouter \<Rightarrow> SentimentAnalysisService" where
  "SentimentAnalysisService_init llm_router =
     \<lparr>router = llm_router,
      system_prompt =
        ''You are a senior revenue operations strategist. Always respond with concise JSON '' @
        ''grounded in the provided message. Focus on B2B buying intent, urgency, and recommended actions.''\<rparr>"

text \<open>Truth value of a JSON value in \<^verbatim>\<open>if cached:\<close>, and of \<^verbatim>\<open>os.getenv(k)\<close>.\<close>

definition truthy :: "json \<Rightarrow> bool" where
  "truthy v =
     (case v of
        JNull \<Rightarrow> False
      | JBool b \<Rightarrow> b
      | JInt i \<Rightarrow> i \<noteq> 0
      | JFloat x \<Rightarrow> x \<noteq> 0
      | JString s \<Rightarrow> s \<noteq> []
      | JArray xs \<Rightarrow> xs \<noteq> []
      | JObject kvs \<Rightarrow> kvs \<noteq> [])"

definition getenv_truthy :: "env \<Rightarrow> string \<Rightarrow> bool" where
  "getenv_truthy e k = (case environ e k of None \<Rightarrow> False | Some s \<Rightarrow> s \<noteq> [])"

text \<open>
  \<^verbatim>\<open>ai_response.get(k, default)\<close> exists on a dict only; on any other value the attribute
  lookup raises \<^verbatim>\<open>AttributeError\<close>.
\<close>

definition type_name :: "json \<Rightarrow> string" where
  "type_name v =
     (case v of
        JNull \<Rightarrow> ''NoneType''
      | JBool b \<Rightarrow> ''bool''
      | JInt i \<Rightarrow> ''int''
      | JFloat x \<Rightarrow> ''float''
      | JString s \<Rightarrow> ''str''
      | JArray xs \<Rightarrow> ''list''
      | JObject kvs \<Rightarrow> ''dict'')"

definition no_attribute_get :: "json \<Rightarrow> exn" where
  "no_attribute_get v =
     AttributeError ([CHR 0x27] @ type_name v @ [CHR 0x27] @ '' object has no attribute '' @
                     [CHR 0x27] @ ''get'' @ [CHR 0x27])"

definition get_or :: "(string \<times> json) list \<Rightarrow> string \<Rightarrow> json \<Rightarrow> json" where
  "get_or kvs k fallback = (case map_of kvs k of None \<Rightarrow> fallback | Some v \<Rightarrow> v)"

definition format_sentiment :: "json \<Rightarrow> exn + json" where
  "format_sentiment ai_response =
     (case ai_response of
        JObject kvs \<Rightarrow>
          Inr (JObject
            [(''sentiment'', get_or kvs ''sentiment_label'' (JString ''neutral'')),
             (''buying_intent'', get_or kvs ''buyer_intent'' (JString ''low'')),
             (''urgency'', get_or kvs ''urgency'' (JString ''low'')),
             (''priority_score'', get_or kvs ''priority_score'' (JInt 50)),
             (''confidence'', get_or kvs ''sentiment_confidence'' (JFloat 0.5)),
             (''intent_probability'', get_or kvs ''intent_probability'' (JFloat 0.3)),
             (''key_insights'', get_or kvs ''key_signals'' (JArray [JString ''Analysis completed''])),
             (''recommendations'',
                get_or kvs ''recommended_actions'' (JArray [JString ''Review email content''])),
             (''summary'', get_or kvs ''summary'' (JString ''Email analysis completed'')),
             (''raw_analysis'', ai_response)])
      | _ \<Rightarrow> Inl (no_attribute_get ai_response))"

definition nl :: string where
  "nl = [CHR 0x0A]"

definition sentiment_prompt :: "string \<Rightarrow> string \<Rightarrow> string \<Rightarrow> string" where
  "sentiment_prompt subject sender_email email_content =
     nl @ ''        Evaluate the following inbound email for sales prioritisation. Provide results as strict JSON with keys:'' @
     nl @ ''        - sentiment_label: one of [positive, neutral, negative]'' @
     nl @ ''        - sentiment_confidence: float between 0 and 1'' @
     nl @ ''        - buyer_intent: one of [high, medium, low]'' @
     nl @ ''        - intent_probability: float between 0 and 1'' @
     nl @ ''        - urgency: one of [high, medium, low]'' @
     nl @ ''        - priority_score: integer 0-100 (higher is more urgent)'' @
     nl @ ''        - key_signals: array of strings referencing evidence'' @
     nl @ ''        - recommended_actions: array of strings with concrete next steps'' @
     nl @ ''        - summary: single sentence summary focused on commercial intent'' @
     nl @ ''        Email metadata:'' @
     nl @ ''        Subject: '' @ subject @
     nl @ ''        Sender: '' @ sender_email @
     nl @ ''        Body:'' @
     nl @ ''        '' @ email_content @
     nl @ ''        ''"

definition cache_key_payload :: "stdlib \<Rightarrow> string \<Rightarrow> string \<Rightarrow> string \<Rightarrow> string" where
  "cache_key_payload L email_content subject sender_email =
     json_dumps L (JObject [(''content'', JString email_content), (''sender'', JString sender_email),
                            (''subject'', JString subject)])"

definition sentiment_request :: "SentimentAnalysisService \<Rightarrow> string \<Rightarrow> request" where
  "sentiment_request self text =
     \<lparr>prompt = text, system = Some (system_prompt self), response_format = ''json'',
      temperature = 0.1, max_tokens = 700, timeout = 60\<rparr>"

text \<open>
  \<^verbatim>\<open>SentimentAnalysisService.analyze\<close>; \<open>analyze_uncached\<close> is its body after the cache
  lookup. The global \<^verbatim>\<open>api_optimizer\<close> is passed and returned.
\<close>

definition analyze_uncached ::
  "stdlib \<Rightarrow> SentimentAnalysisService \<Rightarrow> APIOptimizer \<Rightarrow> string \<Rightarrow> string \<Rightarrow> string \<Rightarrow> env \<Rightarrow>
   (exn + AnalysisResult) \<times> APIOptimizer \<times> env" where
  "analyze_uncached L self api_optimizer email_content subject sender_email e =
     (let (start, e1) = read_clock e in
      case complete (router self)
             (sentiment_request self (sentiment_prompt subject sender_email email_content))
             (2 * second) e1 of
        (Inl err, e2) \<Rightarrow> (Inl err, api_optimizer, e2)
      | (Inr ai_response, e2) \<Rightarrow>
          (let (finish, e3) = read_clock e2; latency = finish - start in
           case format_sentiment ai_response of
             Inl err \<Rightarrow> (Inl err, api_optimizer, e3)
           | Inr formatted_data \<Rightarrow>
               (let e4 = cache_result L api_optimizer
                           (cache_key_payload L email_content subject sender_email)
                           formatted_data ''sentiment_ai'' e3;
                    (api_optimizer', e5) = record_api_call api_optimizer e4
                in (Inr \<lparr>data = formatted_data, provider = ''ai'', latency_seconds = latency\<rparr>,
                    api_optimizer', e5))))"

definition analyze ::
  "stdlib \<Rightarrow> SentimentAnalysisService \<Rightarrow> APIOptimizer \<Rightarrow> string \<Rightarrow> string \<Rightarrow> string \<Rightarrow> env \<Rightarrow>
   (exn + AnalysisResult) \<times> APIOptimizer \<times> env" where
  "analyze L self api_optimizer email_content subject sender_email e =
     (if \<not> getenv_truthy e ''DISABLE_CACHE'' then
        (case get_cached_result L api_optimizer
                (cache_key_payload L email_content subject sender_email) ''sentiment_ai'' e of
           (Some cached, e1) \<Rightarrow>
             if truthy cached then
               (Inr \<lparr>data = cached, provider = ''cache'', latency_seconds = 0\<rparr>, api_optimizer, e1)
             else analyze_uncached L self api_optimizer email_content subject sender_email e1
         | (None, e1) \<Rightarrow>
             analyze_uncached L self api_optimizer email_content subject sender_email e1)
      else analyze_uncached L self api_optimizer email_content subject sender_email e)"


lemma read_clock_frame:
  "files (snd (read_clock e)) = files e" "fs_log (snd (read_clock e)) = fs_log e"
  "environ (snd (read_clock e)) = environ e"
  by (auto simp: read_clock_def split: list.splits)

lemma complete_loop_frame:
  "files (snd (snd (complete_loop req rd ps le e))) = files e \<and>
   fs_log (snd (snd (complete_loop req rd ps le e))) = fs_log e"
proof (induction ps arbitrary: le e)
  case Nil
  then show ?case by (simp add: complete_loop.simps)
next
  case (Cons p ps)
  obtain start e1 where rc: "read_clock e = (start, e1)" by (cases "read_clock e")
  define e2 where "e2 = e1\<lparr>provider_calls := provider_calls e1 @ [name (config p)]\<rparr>"
  have f2: "files e2 = files e" "fs_log e2 = fs_log e"
    using read_clock_frame(1,2) [of e] rc by (simp_all add: e2_def)
  show ?case
  proof (cases "run p req")
    case (Returned v)
    then show ?thesis
      using rc f2 read_clock_frame(1,2) [of e2]
      by (auto simp: complete_loop.simps e2_def [symmetric] split: prod.splits)
  next
    case (ProviderRateLimitError exc)
    show ?thesis
    proof (cases "rd < 0")
      case True
      then show ?thesis
        using rc f2 ProviderRateLimitError
        by (simp add: complete_loop.simps e2_def [symmetric] time_sleep_def)
    next
      case False
      then show ?thesis
        using rc f2 ProviderRateLimitError
          Cons.IH [THEN conjunct1] Cons.IH [THEN conjunct2]
        by (simp add: complete_loop.simps time_sleep_def e2_def)
    qed
  next
    case (ProviderError exc)
    then show ?thesis
      using rc f2 Cons.IH [THEN conjunct1] Cons.IH [THEN conjunct2]
      by (simp add: complete_loop.simps e2_def)
  next
    case (OtherException exc)
    then show ?thesis
      using rc f2 Cons.IH [THEN conjunct1] Cons.IH [THEN conjunct2]
      by (simp add: complete_loop.simps e2_def)
  qed
qed

lemma complete_frame:
  "files (snd (complete r req rd e)) = files e" "fs_log (snd (complete r req rd e)) = fs_log e"
  using complete_loop_frame [of req rd "providers r" None e]
  by (auto simp: complete_def complete_run_def split: prod.splits)

definition sentiment_cache_path :: "stdlib \<Rightarrow> APIOptimizer \<Rightarrow> string \<Rightarrow> string \<Rightarrow> string \<Rightarrow> string" where
  "sentiment_cache_path L api_optimizer email_content subject sender_email =
     get_cache_path api_optimizer
       (get_cache_key L (cache_key_payload L email_content subject sender_email) ''sentiment_ai'')"

lemma analyze_uncached_Inr:
  assumes "analyze_uncached L self opt content subject sender e = (Inr r, opt', e')"
  shows "provider r = ''ai''"
    and "\<exists>e1 e2 v. complete (router self)
             (sentiment_request self (sentiment_prompt subject sender content)) (2 * second) e1 =
               (Inr v, e2) \<and> format_sentiment v = Inr (data r)"
    and "fs_log e' = fs_log e @ [Write (sentiment_cache_path L opt content subject sender)]"
    and "\<exists>t. files e' =
           (files e)(sentiment_cache_path L opt content subject sender \<mapsto>
             json_dumps L (cache_document L t (data r) (cache_key_payload L content subject sender)))"
proof -
  let ?req = "sentiment_request self (sentiment_prompt subject sender content)"
  let ?key = "cache_key_payload L content subject sender"
  obtain start e1 where rc1: "read_clock e = (start, e1)" by (cases "read_clock e")
  obtain res e2 where c: "complete (router self) ?req (2 * second) e1 = (res, e2)"
    by (cases "complete (router self) ?req (2 * second) e1")
  obtain v where res: "res = Inr v"
    using assms rc1 c by (cases res) (simp_all add: analyze_uncached_def)
  obtain fin e3 where rc2: "read_clock e2 = (fin, e3)" by (cases "read_clock e2")
  obtain d where fm: "format_sentiment v = Inr d"
    using assms rc1 c res rc2 by (cases "format_sentiment v") (simp_all add: analyze_uncached_def)
  define e4 where "e4 = cache_result L opt ?key d ''sentiment_ai'' e3"
  obtain now e5 where rc3: "read_clock e4 = (now, e5)" by (cases "read_clock e4")
  have out: "r = \<lparr>data = d, provider = ''ai'', latency_seconds = fin - start\<rparr>" "e' = e5"
    using assms rc1 c res rc2 fm rc3
    by (simp_all add: analyze_uncached_def record_api_call_def e4_def [symmetric])
  show "provider r = ''ai''" by (simp add: out)
  show "\<exists>e1 e2 v. complete (router self) ?req (2 * second) e1 = (Inr v, e2) \<and>
      format_sentiment v = Inr (data r)"
    using c res fm out by auto
  have f3: "files e3 = files e" "fs_log e3 = fs_log e"
    using read_clock_frame(1,2) [of e] read_clock_frame(1,2) [of e2] rc1 rc2
      complete_frame [of "router self" ?req "2 * second" e1] c
    by simp_all
  obtain t e3' where rc4: "read_clock e3 = (t, e3')" by (cases "read_clock e3")
  have f3': "files e3' = files e3"
    using read_clock_frame(1) [of e3] rc4 by simp
  have "fs_log e4 = fs_log e3 @ [Write (sentiment_cache_path L opt content subject sender)]"
    using cache_result_stored(2) [OF rc4] by (simp add: e4_def sentiment_cache_path_def)
  then show "fs_log e' = fs_log e @ [Write (sentiment_cache_path L opt content subject sender)]"
    using read_clock_frame(2) [of e4] rc3 out f3 by simp
  have "files e4 = (files e3)(sentiment_cache_path L opt content subject sender \<mapsto>
             json_dumps L (cache_document L t d ?key))"
    using rc4 f3' by (simp add: e4_def cache_result_def Let_def fs_note_def sentiment_cache_path_def)
  then have "files e' = (files e)(sentiment_cache_path L opt content subject sender \<mapsto>
             json_dumps L (cache_document L t (data r) ?key))"
    using read_clock_frame(1) [of e4] rc3 out f3 by simp
  then show "\<exists>t. files e' =
           (files e)(sentiment_cache_path L opt content subject sender \<mapsto>
             json_dumps L (cache_document L t (data r) ?key))"
    by blast
qed

lemma analyze_uncached_Inl:
  assumes "analyze_uncached L self opt content subject sender e = (Inl err, opt', e')"
  shows "files e' = files e" and "fs_log e' = fs_log e"
proof -
  let ?req = "sentiment_request self (sentiment_prompt subject sender content)"
  obtain start e1 where rc1: "read_clock e = (start, e1)" by (cases "read_clock e")
  obtain res e2 where c: "complete (router self) ?req (2 * second) e1 = (res, e2)"
    by (cases "complete (router self) ?req (2 * second) e1")
  have f2: "files e2 = files e" "fs_log e2 = fs_log e"
    using read_clock_frame(1,2) [of e] rc1 complete_frame [of "router self" ?req "2 * second" e1] c
    by simp_all
  obtain fin e3 where rc2: "read_clock e2 = (fin, e3)" by (cases "read_clock e2")
  have f3: "files e3 = files e" "fs_log e3 = fs_log e"
    using read_clock_frame(1,2) [of e2] rc2 f2 by simp_all
  have "e' = e2 \<or> e' = e3"
    using assms rc1 c rc2
    by (cases res; cases "format_sentiment (projr res)")
      (auto simp: analyze_uncached_def record_api_call_def split: prod.splits)
  then show "files e' = files e" and "fs_log e' = fs_log e"
    using f2 f3 by auto
qed

subsection \<open>Properties of the service\<close>

definition cache_hit ::
  "stdlib \<Rightarrow> APIOptimizer \<Rightarrow> string \<Rightarrow> string \<Rightarrow> string \<Rightarrow> env \<Rightarrow> json option" where
  "cache_hit L api_optimizer email_content subject sender_email e =
     (if getenv_truthy e ''DISABLE_CACHE'' then None
      else case fst (get_cached_result L api_optimizer
                       (cache_key_payload L email_content subject sender_email) ''sentiment_ai'' e) of
             None \<Rightarrow> None
           | Some cached \<Rightarrow> if truthy cached then Some cached else None)"

definition service_B :: SentimentAnalysisService where
  "service_B = SentimentAnalysisService_init \<lparr>providers = [provider_B]\<rparr>"

definition env_cache_disabled :: env where
  "env_cache_disabled = env0\<lparr>environ := [''DISABLE_CACHE'' \<mapsto> ''1'']\<rparr>"

definition path_B :: string where
  "path_B = sentiment_cache_path lib0 optimizer0 ''hello'' [] []"

definition data_B :: json where
  "data_B =
     JObject
       [(''sentiment'', JString ''neutral''), (''buying_intent'', JString ''low''),
        (''urgency'', JString ''low''), (''priority_score'', JInt 50),
        (''confidence'', JFloat 0.5), (''intent_probability'', JFloat 0.3),
        (''key_insights'', JArray [JString ''Analysis completed'']),
        (''recommendations'', JArray [JString ''Review email content'']),
        (''summary'', JString ''Email analysis completed''),
        (''raw_analysis'', JObject [(''answer'', JString (sentiment_prompt [] [] ''hello''))])]"

lemma service_B_router: "router service_B = \<lparr>providers = [provider_B]\<rparr>"
  by (simp add: service_B_def SentimentAnalysisService_init_def)

lemma complete_B:
  "complete \<lparr>providers = [provider_B]\<rparr> req rd e =
     (Inr (JObject [(''answer'', JString (prompt req))]),
      snd (read_clock ((snd (read_clock e))\<lparr>provider_calls :=
             provider_calls (snd (read_clock e)) @ [''B'']\<rparr>)))"
  by (simp add: complete_def complete_run_def complete_loop.simps provider_B_def
      split: prod.splits)

lemma path_B_eq: "path_B = ''data/cache/sentiment_ai_5d41402abc4b2a76b9719d911017c592.json''"
  by (simp add: path_B_def sentiment_cache_path_def get_cache_path_def get_cache_key_def
      path_join_def lib0_def optimizer0_def APIOptimizer_init_def)

lemma lib0_simps:
  "md5_hexdigest lib0 s = ''5d41402abc4b2a76b9719d911017c592''"
  "json_dumps lib0 (JObject ((k, v) # kvs)) = k"
  "isoformat lib0 t = ''1970-01-01T00:00:00''"
  by (simp_all add: lib0_def)

lemma analyze_uncached_B:
  assumes "ticks e = []"
  shows "analyze_uncached lib0 service_B optimizer0 ''hello'' [] [] e =
     (Inr \<lparr>data = data_B, provider = ''ai'', latency_seconds = 0\<rparr>,
      optimizer0\<lparr>last_api_call := clock e\<rparr>,
      e\<lparr>provider_calls := provider_calls e @ [''B''],
        files := (files e)(path_B \<mapsto> ''timestamp''),
        fs_log := fs_log e @ [Write path_B]\<rparr>)"
  using assms
  by (simp add: analyze_uncached_def service_B_router complete_B read_clock_def
      sentiment_request_def format_sentiment_def get_or_def data_B_def cache_result_def
      record_api_call_def fs_note_def Let_def path_B_eq get_cache_path_def get_cache_key_def
      path_join_def optimizer0_def APIOptimizer_init_def lib0_simps cache_document_def
      cache_key_payload_def)


lemma analyze_B:
  "analyze lib0 service_B optimizer0 ''hello'' [] [] env0 =
     (Inr \<lparr>data = data_B, provider = ''ai'', latency_seconds = 0\<rparr>,
      optimizer0\<lparr>last_api_call := 0\<rparr>,
      env0\<lparr>provider_calls := [''B''], files := [path_B \<mapsto> ''timestamp''],
           fs_log := [Exists path_B, Write path_B]\<rparr>)"
proof -
  have off: "\<not> getenv_truthy env0 ''DISABLE_CACHE''"
    by (simp add: getenv_truthy_def env0_def)
  have miss: "get_cached_result lib0 optimizer0 (cache_key_payload lib0 ''hello'' [] [])
                ''sentiment_ai'' env0 = (None, env0\<lparr>fs_log := [Exists path_B]\<rparr>)"
    by (simp add: get_cached_result_def Let_def fs_note_def env0_def path_B_eq
        get_cache_path_def get_cache_key_def path_join_def optimizer0_def APIOptimizer_init_def
        lib0_simps cache_key_payload_def)
  have "ticks (env0\<lparr>fs_log := [Exists path_B]\<rparr>) = []" by (simp add: env0_def)
  then show ?thesis
    using off miss analyze_uncached_B [of "env0\<lparr>fs_log := [Exists path_B]\<rparr>"]
    by (simp add: analyze_def env0_def)
qed

lemma analyze_B_cache_disabled:
  "analyze lib0 service_B optimizer0 ''hello'' [] [] env_cache_disabled =
     (Inr \<lparr>data = data_B, provider = ''ai'', latency_seconds = 0\<rparr>,
      optimizer0\<lparr>last_api_call := 0\<rparr>,
      env_cache_disabled\<lparr>provider_calls := [''B''], files := [path_B \<mapsto> ''timestamp''],
           fs_log := [Write path_B]\<rparr>)"
proof -
  have on: "getenv_truthy env_cache_disabled ''DISABLE_CACHE''"
    by (simp add: getenv_truthy_def env_cache_disabled_def)
  have "ticks env_cache_disabled = []" by (simp add: env_cache_disabled_def env0_def)
  then show ?thesis
    using on analyze_uncached_B [of env_cache_disabled]
    by (simp add: analyze_def env_cache_disabled_def env0_def)
qed

text \<open>
  C3, as stated, fails: the router hands back only the provider's result, and the service
  labels every non-cached result with the literal \<^verbatim>\<open>"ai"\<close>. Here provider \<open>B\<close> serves the
  request and the result's provider field is not \<open>B\<close>.
\<close>

theorem analyze_provider_counterexample:
  "provider_calls (snd (snd (analyze lib0 service_B optimizer0 ''hello'' [] [] env0))) =
     [name (config provider_B)] \<and>
   map_sum id provider (fst (analyze lib0 service_B optimizer0 ''hello'' [] [] env0)) = Inr ''ai'' \<and>
   ''ai'' \<noteq> name (config provider_B)"
  by (simp add: analyze_B provider_B_def)

text \<open>
  C3, amended. On every successful analysis the result is \<open>{data, provider, latency_seconds}\<close>
  with provider either \<^verbatim>\<open>"cache"\<close> or \<^verbatim>\<open>"ai"\<close>. It is \<^verbatim>\<open>"cache"\<close> exactly when the lookup was
  made and returned a truthy value; the data is then that value and the latency 0. Otherwise
  it is the literal \<^verbatim>\<open>"ai"\<close>, whichever provider served the request, and the data is the
  formatted result of the router's completion.
\<close>

theorem analyze_provider_label:
  assumes "analyze L self api_optimizer content subject sender e = (Inr r, api_optimizer', e')"
  shows "(provider r = ''cache'' \<longleftrightarrow> cache_hit L api_optimizer content subject sender e \<noteq> None) \<and>
         (provider r = ''cache'' \<longrightarrow>
            latency_seconds r = 0 \<and>
            cache_hit L api_optimizer content subject sender e = Some (data r)) \<and>
         (provider r \<noteq> ''cache'' \<longrightarrow>
            provider r = ''ai'' \<and>
            (\<exists>e1 e2 v.
               complete (router self)
                 (sentiment_request self (sentiment_prompt subject sender content))
                 (2 * second) e1 = (Inr v, e2) \<and>
               format_sentiment v = Inr (data r)))"
proof (cases "cache_hit L api_optimizer content subject sender e")
  case None
  then have "\<exists>e1. analyze L self api_optimizer content subject sender e =
      analyze_uncached L self api_optimizer content subject sender e1"
    by (auto simp: analyze_def cache_hit_def split: prod.splits option.splits if_splits)
  then obtain e1 where
    "analyze_uncached L self api_optimizer content subject sender e1 = (Inr r, api_optimizer', e')"
    using assms by auto
  then show ?thesis
    using analyze_uncached_Inr(1,2) None by fastforce
next
  case (Some cached)
  then have "analyze L self api_optimizer content subject sender e =
      (Inr \<lparr>data = cached, provider = ''cache'', latency_seconds = 0\<rparr>, api_optimizer,
       snd (get_cached_result L api_optimizer (cache_key_payload L content subject sender)
              ''sentiment_ai'' e))"
    by (auto simp: analyze_def cache_hit_def split: prod.splits option.splits if_splits)
  then have "r = \<lparr>data = cached, provider = ''cache'', latency_seconds = 0\<rparr>"
    using assms by simp
  then show ?thesis using Some by simp
qed

theorem analyze_provider_label_witness:
  "analyze lib0 service_B optimizer0 ''hello'' [] [] env0 =
     (Inr \<lparr>data = data_B, provider = ''ai'', latency_seconds = 0\<rparr>,
      optimizer0\<lparr>last_api_call := 0\<rparr>,
      env0\<lparr>provider_calls := [''B''], files := [path_B \<mapsto> ''timestamp''],
           fs_log := [Exists path_B, Write path_B]\<rparr>) \<and>
   cache_hit lib0 optimizer0 ''hello'' [] [] env0 = None \<and>
   provider \<lparr>data = data_B, provider = ''ai'', latency_seconds = 0\<rparr> \<noteq> ''cache''"
  using analyze_provider_label [OF analyze_B] analyze_B
  by auto

text \<open>
  C8, as stated, fails: with \<^verbatim>\<open>DISABLE_CACHE=1\<close> the request still stores its result; the
  cache file that did not exist before the request exists after it.
\<close>

theorem disable_cache_counterexample:
  "getenv_truthy env_cache_disabled ''DISABLE_CACHE'' \<and>
   files env_cache_disabled path_B = None \<and>
   files (snd (snd (analyze lib0 service_B optimizer0 ''hello'' [] [] env_cache_disabled))) path_B
     = Some ''timestamp'' \<and>
   fs_log (snd (snd (analyze lib0 service_B optimizer0 ''hello'' [] [] env_cache_disabled))) =
     [Write path_B]"
  by (simp add: analyze_B_cache_disabled) (simp add: getenv_truthy_def env_cache_disabled_def env0_def)

text \<open>
  C8, amended. When \<^verbatim>\<open>DISABLE_CACHE\<close> is set to a non-empty value, an analysis request makes
  no cache lookup: it is skipped before being attempted, so no cache file is tested, read
  or removed. The store is not gated by the flag: a request that fails leaves the cache
  files as they were, and a successful one (always labelled \<^verbatim>\<open>"ai"\<close>) writes its result to
  the entry of its key and changes nothing else.
\<close>

theorem disable_cache_skips_lookup_only:
  assumes "getenv_truthy e ''DISABLE_CACHE''"
    and "analyze L self api_optimizer content subject sender e = (res, api_optimizer', e')"
  shows "case res of
           Inl err \<Rightarrow> fs_log e' = fs_log e \<and> files e' = files e
         | Inr r \<Rightarrow>
             provider r = ''ai'' \<and>
             fs_log e' = fs_log e @ [Write (sentiment_cache_path L api_optimizer content subject sender)] \<and>
             (\<exists>t. files e' =
                (files e)(sentiment_cache_path L api_optimizer content subject sender \<mapsto>
                  json_dumps L (cache_document L t (data r)
                                 (cache_key_payload L content subject sender))))"
proof -
  have u: "analyze_uncached L self api_optimizer content subject sender e = (res, api_optimizer', e')"
    using assms by (simp add: analyze_def)
  show ?thesis
  proof (cases res)
    case (Inl err)
    then show ?thesis using analyze_uncached_Inl [of L self api_optimizer content subject sender e err] u
      by simp
  next
    case (Inr r)
    then show ?thesis
      using analyze_uncached_Inr(1,3,4) [of L self api_optimizer content subject sender e r] u
      by simp
  qed
qed

theorem disable_cache_skips_lookup_only_witness:
  "getenv_truthy env_cache_disabled ''DISABLE_CACHE'' \<and>
   analyze lib0 service_B optimizer0 ''hello'' [] [] env_cache_disabled =
     (Inr \<lparr>data = data_B, provider = ''ai'', latency_seconds = 0\<rparr>,
      optimizer0\<lparr>last_api_call := 0\<rparr>,
      env_cache_disabled\<lparr>provider_calls := [''B''], files := [path_B \<mapsto> ''timestamp''],
           fs_log := [Write path_B]\<rparr>) \<and>
   fs_log env_cache_disabled = []"
proof -
  have on: "getenv_truthy env_cache_disabled ''DISABLE_CACHE''"
    by (simp add: getenv_truthy_def env_cache_disabled_def)
  show ?thesis
    using disable_cache_skips_lookup_only [OF on analyze_B_cache_disabled] on
      analyze_B_cache_disabled
    by (simp add: env_cache_disabled_def env0_def)
qed

section \<open>Response normaliser (services/llm_router.py)\<close>

text \<open>
  \<^verbatim>\<open>_extract_json\<close>. \<^verbatim>\<open>json.loads\<close> and \<^verbatim>\<open>re.findall\<close> are the library parameters; only
  \<^verbatim>\<open>json.JSONDecodeError\<close> is caught, any other exception of \<^verbatim>\<open>json.loads\<close> (for instance
  \<^verbatim>\<open>RecursionError\<close> on deeply nested input) leaves the function.
\<close>

definition strip :: "string \<Rightarrow> string" where
  "strip s = rev (dropWhile isspace (rev (dropWhile isspace s)))"

definition bs :: string where
  "bs = [CHR 0x5C]"

definition fenced_patterns :: "string list" where
  "fenced_patterns =
     [''```json'' @ bs @ ''s*('' @ bs @ ''{.*?'' @ bs @ ''})'' @ bs @ ''s*```'',
      ''```'' @ bs @ ''s*('' @ bs @ ''{.*?'' @ bs @ ''})'' @ bs @ ''s*```'',
      ''('' @ bs @ ''{[^{}]*(?:'' @ bs @ ''{[^{}]*'' @ bs @ ''}[^{}]*)*'' @ bs @ ''})'']"

fun is_decode_error :: "exn \<Rightarrow> bool" where
  "is_decode_error (JSONDecodeError m) = True"
| "is_decode_error err = False"

fun try_matches :: "stdlib \<Rightarrow> string list \<Rightarrow> (exn + json) option" where
  "try_matches L [] = None"
| "try_matches L (m # matches) =
     (case json_loads L (strip m) of
        Inr v \<Rightarrow> Some (Inr v)
      | Inl err \<Rightarrow> if is_decode_error err then try_matches L matches else Some (Inl err))"

fun try_patterns :: "stdlib \<Rightarrow> string \<Rightarrow> string list \<Rightarrow> (exn + json) option" where
  "try_patterns L content [] = None"
| "try_patterns L content (pattern # patterns) =
     (case try_matches L (findall L pattern content) of
        Some r \<Rightarrow> Some r
      | None \<Rightarrow> try_patterns L content patterns)"

definition extract_json :: "stdlib \<Rightarrow> string \<Rightarrow> exn + json" where
  "extract_json L content =
     (if content = [] then Inr (JObject [(''error'', JString ''Empty response from model'')])
      else
        let content = strip content in
        case json_loads L content of
          Inr v \<Rightarrow> Inr v
        | Inl err \<Rightarrow>
            if is_decode_error err then
              (case try_patterns L content fenced_patterns of
                 Some r \<Rightarrow> r
               | None \<Rightarrow>
                   Inr (JObject [(''response'', JString content),
                                 (''error'', JString ''Could not parse as JSON'')]))
            else Inl err)"

fun is_mapping :: "json \<Rightarrow> bool" where
  "is_mapping (JObject kvs) = True"
| "is_mapping v = False"

text \<open>
  C4 fails on the code. The direct parse returns whatever \<^verbatim>\<open>json.loads\<close> decodes, mapping or
  not, and an exception of \<^verbatim>\<open>json.loads\<close> other than \<^verbatim>\<open>JSONDecodeError\<close> is not caught.
\<close>

theorem extract_json_direct_parse:
  assumes "content \<noteq> []"
  shows "(json_loads L (strip content) = Inr v \<longrightarrow> extract_json L content = Inr v) \<and>
         (json_loads L (strip content) = Inl err \<and> \<not> is_decode_error err \<longrightarrow>
            extract_json L content = Inl err)"
  using assms by (simp add: extract_json_def Let_def)

theorem extract_json_direct_parse_witness:
  "''[1, 2]'' \<noteq> [] \<and> strip ''[1, 2]'' = ''[1, 2]'' \<and>
   json_loads lib0 ''[1, 2]'' = Inr (JArray [JInt 1, JInt 2]) \<and>
   extract_json lib0 ''[1, 2]'' = Inr (JArray [JInt 1, JInt 2]) \<and>
   \<not> is_mapping (JArray [JInt 1, JInt 2]) \<and>
   format_sentiment (JArray [JInt 1, JInt 2]) = Inl (no_attribute_get (JArray [JInt 1, JInt 2]))"
proof -
  have s: "strip ''[1, 2]'' = ''[1, 2]''"
    by (simp add: strip_def isspace_def whitespace_def)
  have l: "json_loads lib0 ''[1, 2]'' = Inr (JArray [JInt 1, JInt 2])"
    by (simp add: lib0_def)
  show ?thesis
    using extract_json_direct_parse [of "''[1, 2]''" lib0 "JArray [JInt 1, JInt 2]"] s l
    by (simp add: format_sentiment_def)
qed


section \<open>Concurrent callers of the rate limiter\<close>

text \<open>
  \<^verbatim>\<open>can_make_call\<close> and \<^verbatim>\<open>record_call\<close> each run inside their own \<^verbatim>\<open>with self.lock\<close>;
  \<^verbatim>\<open>wait_if_needed\<close> itself takes no lock. So the atomic steps of a caller are: one check, one
  record, and the sleep in between checks, and the steps of different callers interleave in
  any order. A caller is at its check, asleep until some instant, at its record, or done.
  A schedule lists which caller moves next and what the clock then reads.
\<close>

datatype caller = AtCheck | Asleep int | AtRecord | Finished "exn + bool"

definition caller_step :: "int \<Rightarrow> caller \<Rightarrow> GroqRateLimiter \<Rightarrow> caller \<times> GroqRateLimiter" where
  "caller_step now c self =
     (case c of
        AtCheck \<Rightarrow>
          (case can_make_call now self of
             (Inl err, s1) \<Rightarrow> (Finished (Inl err), s1)
           | (Inr (can_call, message), s1) \<Rightarrow>
               if \<not> can_call then
                 (if contains ''Wait'' message then
                    (case index_m2 (split message) of
                       None \<Rightarrow> (Finished (Inl (IndexError ''list index out of range'')), s1)
                     | Some tok \<Rightarrow>
                         (case py_float tok of
                            None \<Rightarrow>
                              (Finished (Inl (ValueError ''could not convert string to float'')), s1)
                          | Some wait_time \<Rightarrow> (Asleep (now + (wait_time + 1 * second)), s1)))
                  else (Finished (Inl (Exception (''Rate limit exceeded: '' @ message))), s1))
               else (AtRecord, s1))
      | Asleep until \<Rightarrow> (if until \<le> now then AtCheck else Asleep until, self)
      | AtRecord \<Rightarrow> (Finished (Inr True), record_call now self)
      | Finished r \<Rightarrow> (Finished r, self))"

text \<open>
  A caller's check step decides as \<^verbatim>\<open>wait_if_needed\<close> does (compare \<open>wait_if_needed_unfold\<close>):
  a caller left alone runs \<^verbatim>\<open>wait_if_needed\<close>.
\<close>

lemma caller_step_check:
  "caller_step now AtCheck self =
     (case check now self of
        Quota \<Rightarrow>
          (Finished (Inl (Exception (''Rate limit exceeded: '' @
                            daily_limit_message (calls_per_day self)))),
           reset_if_new_day now self)
      | NoOldest \<Rightarrow>
          (Finished (Inl (ValueError ''min() arg is an empty sequence'')), checked now self)
      | Wait w \<Rightarrow> (Asleep (now + backoff w), checked now self)
      | Admit \<Rightarrow> (AtRecord, checked now self))"
proof (cases "check now self")
  case Quota
  then show ?thesis
    using not_contains_daily_limit_message [of "calls_per_day self"]
    by (simp add: caller_step_def can_make_call_check)
next
  case NoOldest
  then show ?thesis by (simp add: caller_step_def can_make_call_check)
next
  case (Wait w)
  have "0 \<le> w" using check_Wait_pos [OF Wait] by simp
  then show ?thesis
    using Wait wait_message_parsed [of w]
    by (simp add: caller_step_def can_make_call_check backoff_def)
next
  case Admit
  then show ?thesis by (simp add: caller_step_def can_make_call_check)
qed

fun run_schedule ::
  "(nat \<times> int) list \<Rightarrow> caller list \<Rightarrow> GroqRateLimiter \<Rightarrow> caller list \<times> GroqRateLimiter" where
  "run_schedule [] cs self = (cs, self)"
| "run_schedule ((i, now) # sched) cs self =
     (if i < length cs then
        (case caller_step now (cs ! i) self of
           (c', self') \<Rightarrow> run_schedule sched (cs[i := c']) self')
      else run_schedule sched cs self)"

text \<open>
  C9 fails on the code. With one call allowed per minute, two callers whose checks both run
  before either record are both admitted, within the same second; when the first caller
  records before the second checks, the second is put to sleep.
\<close>

theorem check_then_record_race:
  "calls_per_minute limiter_one_per_minute = 1 \<and>
   run_schedule [(0, 0), (1, 1), (0, 2), (1, 3)] [AtCheck, AtCheck] limiter_one_per_minute =
     ([Finished (Inr True), Finished (Inr True)],
      limiter_one_per_minute\<lparr>call_times := [2, 3], daily_calls := 2\<rparr>) \<and>
   length (window 3 [2, 3]) = 2 \<and>
   run_schedule [(0, 0), (0, 2), (1, 3)] [AtCheck, AtCheck] limiter_one_per_minute =
     ([Finished (Inr True), Asleep 61000003],
      limiter_one_per_minute\<lparr>call_times := [2], daily_calls := 1\<rparr>)"
  by (simp add: limiter_one_per_minute_def GroqRateLimiter_init_def caller_step_def
      can_make_call_check check_def checked_def reset_if_new_day_def prune_def record_call_def
      date_def minute_def second_def window_def wait_message_parsed round_tenths_examples)

text \<open>
  C5 fails on the code, by the defect of C9. The limiter is one object shared by the request
  threads, and an admission checks the window in one critical section and records its
  timestamp in another. With one call allowed per minute, two callers whose checks both run
  before either records are both admitted, and the two recorded timestamps lie in one
  trailing 60-second window: the second admission exceeded the count and was not delayed.
  (With the callers one at a time the bound holds, \<open>sequential_window_bound\<close>.) Besides,
  with \<open>calls_per_minute = 0\<close> an attempt is neither admitted nor delayed: the window is full
  and empty at once, and \<^verbatim>\<open>min\<close> of the empty list raises \<^verbatim>\<open>ValueError\<close>.
\<close>

theorem shared_limiter_window_exceeded:
  "calls_per_minute limiter_one_per_minute = 1 \<and>
   run_schedule [(0, 5), (1, 6), (1, 7), (0, 8)] [AtCheck, AtCheck] limiter_one_per_minute =
     ([Finished (Inr True), Finished (Inr True)],
      limiter_one_per_minute\<lparr>call_times := [7, 8], daily_calls := 2\<rparr>) \<and>
   window 8 [7, 8] = [7, 8] \<and>
   wait_if_needed env0 (GroqRateLimiter_init 0 10 0) =
     (Inl (ValueError ''min() arg is an empty sequence''), env0, GroqRateLimiter_init 0 10 0)"
proof -
  have "wait_if_needed env0 (GroqRateLimiter_init 0 10 0) =
     (Inl (ValueError ''min() arg is an empty sequence''), env0, GroqRateLimiter_init 0 10 0)"
    by (subst wait_if_needed_eval)
      (simp add: GroqRateLimiter_init_def env0_def read_clock_def check_def checked_def
        reset_if_new_day_def prune_def date_def)
  then show ?thesis
    by (simp add: limiter_one_per_minute_def GroqRateLimiter_init_def caller_step_def
        can_make_call_check check_def checked_def reset_if_new_day_def prune_def record_call_def
        date_def minute_def second_def window_def)
qed

end
